theory Spec2Isabelle
  imports Main "HOL-Library.Word"
begin

section \<open>Bytes, hashes and big-endian integers\<close>

text \<open>
  Go's \<open>byte\<close> is an 8-bit word. \<open>common.Hash\<close> is the array type \<open>[32]byte\<close>; it is
  modelled as a 256-bit word read big-endian, so that the type holds exactly the 32-byte
  arrays and \<open>common.Hash{}\<close> is \<open>0\<close>. \<open>common.Address\<close> is \<open>[20]byte\<close>.
\<close>

type_synonym byte = "8 word"
type_synonym hash = "256 word"
type_synonym address = "160 word"

definition be_nat :: "byte list \<Rightarrow> nat" where
  "be_nat bs = foldl (\<lambda>a b. 256 * a + unat b) 0 bs"

fun be_bytes :: "nat \<Rightarrow> nat \<Rightarrow> byte list" where
  "be_bytes 0 x = []"
| "be_bytes (Suc n) x = be_bytes n (x div 256) @ [of_nat (x mod 256)]"

text \<open>\<open>h[:]\<close> and \<open>h.Bytes()\<close>: the 32 bytes of a hash.\<close>

definition hash_bytes :: "hash \<Rightarrow> byte list" where
  "hash_bytes h = be_bytes 32 (unat h)"

definition hash_of_bytes :: "byte list \<Rightarrow> hash" where
  "hash_of_bytes bs = of_nat (be_nat bs)"

text \<open>
  Modelled from the spec: package \<open>common\<close> is not among the sources. \<open>Hash.SetBytes\<close>
  crops its argument from the left to 32 bytes and copies it into the right end of the
  receiver (\<open>copy(h[HashLength-len(b):], b)\<close>): the leading bytes of the receiver stay.
  \<open>BytesToHash\<close> is \<open>SetBytes\<close> on a fresh zero hash, and \<open>TrimLeftZeroes\<close> drops the
  leading zero bytes (the spec: "left-trim leading zero bytes of the 32-byte value").
\<close>

definition SetBytes :: "hash \<Rightarrow> byte list \<Rightarrow> hash" where
  "SetBytes h b =
     (let b' = (if length b > 32 then drop (length b - 32) b else b)
      in hash_of_bytes (take (32 - length b') (hash_bytes h) @ b'))"

definition BytesToHash :: "byte list \<Rightarrow> hash" where
  "BytesToHash b = SetBytes 0 b"

definition TrimLeftZeroes :: "byte list \<Rightarrow> byte list" where
  "TrimLeftZeroes s = dropWhile (\<lambda>b. b = 0) s"

section \<open>The serialization primitive (package rlp)\<close>

text \<open>
  Modelled from the spec: package \<open>rlp\<close> is not among the sources; the spec names it "the
  underlying keyed serialization primitive", whose "string/list headers always start
  above" \<open>0x7F\<close> and under which "a single-byte value equal to 0, 1, or 2 would otherwise
  be indistinguishable" from a type tag. The definitions below are the recursive-length-prefix
  rules the package implements:
  \<^item> a byte string of one byte \<open>\<le> 0x7F\<close> is that byte; a string of fewer than 56 bytes is
    \<open>0x80 + length\<close> followed by the bytes; a longer one is \<open>0xB7 + n\<close>, the length in \<open>n\<close>
    big-endian bytes, then the bytes;
  \<^item> an unsigned integer is the string of its big-endian bytes without leading zeros;
  \<^item> a struct is the list of its fields: \<open>0xC0 + size\<close> (or \<open>0xF7 + n\<close> and the size)
    followed by the fields' encodings;
  \<^item> the decoder accepts canonical encodings only.
\<close>

datatype rlp_error =
    EOF | ErrUnexpectedEOF | ErrCanonSize | ErrCanonInt | ErrValueTooLarge
  | ErrExpectedString | ErrExpectedList | ErrUintOverflow | ErrMoreThanOneValue
  | ErrInputTooShort | ErrInputTooLong | ErrTooFewElems | ErrTooManyElems

datatype Kind = ByteK | StringK | ListK

text \<open>\<open>putint\<close>: the big-endian bytes of an unsigned integer, without leading zeros.\<close>

function putint :: "nat \<Rightarrow> byte list" where
  "putint n = (if n = 0 then [] else putint (n div 256) @ [of_nat (n mod 256)])"
  by pat_completeness auto
termination
  by (relation "measure (\<lambda>n. n)") auto

declare putint.simps [simp del]

definition encodeStringHeader :: "nat \<Rightarrow> byte list" where
  "encodeStringHeader sz =
     (if sz < 56 then [of_nat (0x80 + sz)]
      else of_nat (0xB7 + length (putint sz)) # putint sz)"

definition writeBytes :: "byte list \<Rightarrow> byte list" where
  "writeBytes b =
     (if length b = 1 \<and> hd b \<le> 0x7F then [hd b] else encodeStringHeader (length b) @ b)"

definition writeUint :: "nat \<Rightarrow> byte list" where
  "writeUint i =
     (if i = 0 then [0x80]
      else if i < 128 then [of_nat i]
      else of_nat (0x80 + length (putint i)) # putint i)"

text \<open>A byte array of 32 bytes always gets a string header.\<close>

definition writeByteArray :: "byte list \<Rightarrow> byte list" where
  "writeByteArray b = encodeStringHeader (length b) @ b"

definition encodeListHeader :: "nat \<Rightarrow> byte list" where
  "encodeListHeader sz =
     (if sz < 56 then [of_nat (0xC0 + sz)]
      else of_nat (0xF7 + length (putint sz)) # putint sz)"

definition readSize :: "byte list \<Rightarrow> nat \<Rightarrow> rlp_error + nat" where
  "readSize b slen =
     (if slen > length b then Inl ErrUnexpectedEOF
      else let s = be_nat (take slen b)
           in if s < 56 \<or> (case b of [] \<Rightarrow> False | b0 # _ \<Rightarrow> b0 = 0) then Inl ErrCanonSize
              else Inr s)"

text \<open>\<open>readKind\<close> returns the kind, the size of the tag and the size of the content.\<close>

definition readKind :: "byte list \<Rightarrow> rlp_error + (Kind \<times> nat \<times> nat)" where
  "readKind buf =
     (case buf of
        [] \<Rightarrow> Inl ErrUnexpectedEOF
      | b # bs \<Rightarrow>
          (let r =
             (if b < 0x80 then Inr (ByteK, 0, 1)
              else if b < 0xB8 then
                (if unat b - 0x80 = 1 \<and> bs \<noteq> [] \<and> hd bs < 128 then Inl ErrCanonSize
                 else Inr (StringK, 1, unat b - 0x80))
              else if b < 0xC0 then
                (case readSize bs (unat b - 0xB7) of
                   Inl e \<Rightarrow> Inl e
                 | Inr s \<Rightarrow> Inr (StringK, unat b - 0xB7 + 1, s))
              else if b < 0xF8 then Inr (ListK, 1, unat b - 0xC0)
              else
                (case readSize bs (unat b - 0xF7) of
                   Inl e \<Rightarrow> Inl e
                 | Inr s \<Rightarrow> Inr (ListK, unat b - 0xF7 + 1, s)))
           in case r of
                Inl e \<Rightarrow> Inl e
              | Inr (k, tagsize, contentsize) \<Rightarrow>
                  if contentsize > length buf - tagsize then Inl ErrValueTooLarge
                  else Inr (k, tagsize, contentsize)))"

text \<open>\<open>rlp.Split\<close>: the kind and content of the first value, and the bytes after it.\<close>

definition Split :: "byte list \<Rightarrow> rlp_error + (Kind \<times> byte list \<times> byte list)" where
  "Split b =
     (case readKind b of
        Inl e \<Rightarrow> Inl e
      | Inr (k, ts, cs) \<Rightarrow> Inr (k, take cs (drop ts b), drop (ts + cs) b))"

section \<open>Snapshot values (core/state/snapshot/snapshot\_value.go)\<close>

text \<open>
  Modelled from the spec: the declaration of \<open>types.StateEpoch\<close> is not among the sources
  (the spec: "epoch integer", a counter "compared against per-slot epoch stamps"); it is
  taken as Go's \<open>uint16\<close>, with \<open>StateEpoch0 = 0\<close>.
\<close>

type_synonym StateEpoch = "16 word"

definition RawValueType :: byte where "RawValueType = 0"
definition ValueWithEpochType :: byte where "ValueWithEpochType = 1"
definition ShrinkNodeWithEpochType :: byte where "ShrinkNodeWithEpochType = 2"

datatype error =
    ErrSnapValueNotSupport
  | ErrStorageExpired
  | RlpError rlp_error
  | OtherError nat

text \<open>The three implementations of the interface \<open>SnapValue\<close>.\<close>

datatype SnapValue =
    RawValue "byte list"
  | ValueWithEpoch StateEpoch hash
  | ShrinkNodeWithEpoch StateEpoch hash

fun GetType :: "SnapValue \<Rightarrow> byte" where
  "GetType (RawValue v) = RawValueType"
| "GetType (ValueWithEpoch e v) = ValueWithEpochType"
| "GetType (ShrinkNodeWithEpoch e h) = ShrinkNodeWithEpochType"

fun GetEpoch :: "SnapValue \<Rightarrow> StateEpoch" where
  "GetEpoch (RawValue v) = 0"
| "GetEpoch (ValueWithEpoch e v) = e"
| "GetEpoch (ShrinkNodeWithEpoch e h) = e"

fun GetVal :: "SnapValue \<Rightarrow> hash" where
  "GetVal (RawValue v) = BytesToHash v"
| "GetVal (ValueWithEpoch e v) = v"
| "GetVal (ShrinkNodeWithEpoch e h) = 0"

text \<open>
  \<open>rlp.Encode\<close> of a struct of an epoch and a 32-byte array (\<open>ValueWithEpoch\<close> and
  \<open>ShrinkNodeWithEpoch\<close> have this shape), and \<open>rlp.DecodeBytes\<close> into such a struct.
\<close>

definition encodeEpochHash :: "StateEpoch \<Rightarrow> hash \<Rightarrow> byte list" where
  "encodeEpochHash e h =
     (let payload = writeUint (unat e) @ writeByteArray (hash_bytes h)
      in encodeListHeader (length payload) @ payload)"

definition decodeUint16 :: "Kind \<Rightarrow> byte list \<Rightarrow> rlp_error + StateEpoch" where
  "decodeUint16 k c =
     (case k of
        ListK \<Rightarrow> Inl ErrExpectedString
      | ByteK \<Rightarrow> if c = [0] then Inl ErrCanonInt else Inr (of_nat (be_nat c))
      | StringK \<Rightarrow>
          if length c > 2 then Inl ErrUintOverflow
          else if (case c of [] \<Rightarrow> False | c0 # _ \<Rightarrow> c0 = 0) then Inl ErrCanonInt
          else Inr (of_nat (be_nat c)))"

definition decodeHash :: "Kind \<Rightarrow> byte list \<Rightarrow> rlp_error + hash" where
  "decodeHash k c =
     (case k of
        ListK \<Rightarrow> Inl ErrExpectedString
      | ByteK \<Rightarrow> Inl ErrInputTooShort
      | StringK \<Rightarrow>
          if length c < 32 then Inl ErrInputTooShort
          else if length c > 32 then Inl ErrInputTooLong
          else Inr (hash_of_bytes c))"

definition decodeEpochHash :: "byte list \<Rightarrow> rlp_error + (StateEpoch \<times> hash)" where
  "decodeEpochHash b =
     (if b = [] then Inl EOF
      else
        (case Split b of
           Inl e \<Rightarrow> Inl e
         | Inr (k, content, rest) \<Rightarrow>
             (if k \<noteq> ListK then Inl ErrExpectedList
              else if content = [] then Inl ErrTooFewElems
              else
                (case Split content of
                   Inl e \<Rightarrow> Inl e
                 | Inr (k1, c1, rest1) \<Rightarrow>
                     (case decodeUint16 k1 c1 of
                        Inl e \<Rightarrow> Inl e
                      | Inr epoch \<Rightarrow>
                          (if rest1 = [] then Inl ErrTooFewElems
                           else
                             (case Split rest1 of
                                Inl e \<Rightarrow> Inl e
                              | Inr (k2, c2, rest2) \<Rightarrow>
                                  (case decodeHash k2 c2 of
                                     Inl e \<Rightarrow> Inl e
                                   | Inr h \<Rightarrow>
                                       (if rest2 \<noteq> [] then Inl ErrTooManyElems
                                        else if rest \<noteq> [] then Inl ErrMoreThanOneValue
                                        else Inr (epoch, h))))))))))"

text \<open>
  A call either returns or panics: indexing an empty slice (\<open>b[0]\<close>) is a run-time
  panic in Go, not an error value.
\<close>

datatype 'a outcome = Return 'a | Panic

definition encodeValTyped :: "SnapValue \<Rightarrow> error + byte list" where
  "encodeValTyped val =
     (case val of
        RawValue v \<Rightarrow> Inr (GetType val # writeBytes v)
      | ValueWithEpoch e h \<Rightarrow> Inr (GetType val # encodeEpochHash e h)
      | ShrinkNodeWithEpoch e h \<Rightarrow> Inr (GetType val # encodeEpochHash e h))"

definition EncodeValueToRLPBytes :: "SnapValue \<Rightarrow> error + byte list" where
  "EncodeValueToRLPBytes val =
     (case val of
        RawValue raw \<Rightarrow> Inr (writeBytes raw)
      | _ \<Rightarrow> encodeValTyped val)"

definition decodeValTyped :: "byte list \<Rightarrow> (error + SnapValue) outcome" where
  "decodeValTyped b =
     (case b of
        [] \<Rightarrow> Panic
      | t # rest \<Rightarrow>
          if t = ValueWithEpochType then
            (case decodeEpochHash rest of
               Inl e \<Rightarrow> Return (Inl (RlpError e))
             | Inr (epoch, v) \<Rightarrow> Return (Inr (ValueWithEpoch epoch v)))
          else if t = ShrinkNodeWithEpochType then
            (case decodeEpochHash rest of
               Inl e \<Rightarrow> Return (Inl (RlpError e))
             | Inr (epoch, h) \<Rightarrow> Return (Inr (ShrinkNodeWithEpoch epoch h)))
          else Return (Inl ErrSnapValueNotSupport))"

definition DecodeValueFromRLPBytes :: "byte list \<Rightarrow> (error + SnapValue) outcome" where
  "DecodeValueFromRLPBytes b =
     (if length b > 0 \<and> hd b > 0x7f then
        (case Split b of
           Inl e \<Rightarrow> Return (Inl (RlpError e))
         | Inr (k, content, rest) \<Rightarrow> Return (Inr (RawValue content)))
      else decodeValTyped b)"

definition GetValueTypeFromRLPBytes :: "byte list \<Rightarrow> byte outcome" where
  "GetValueTypeFromRLPBytes b =
     (if length b > 0 \<and> hd b > 0x7f then Return RawValueType
      else case b of [] \<Rightarrow> Panic | b0 # _ \<Rightarrow> Return b0)"

section \<open>The state object (core/state/state\_object.go)\<close>

subsection \<open>Data\<close>

text \<open>
  \<open>types.StateAccount\<close>: the nonce is a \<open>uint64\<close>, the balance a \<open>*big.Int\<close>, the code
  hash a byte slice. \<open>EmptyRootHash\<close> and \<open>EmptyCodeHash\<close> are the digests of the empty
  trie and of the empty code.
\<close>

record StateAccount =
  Nonce :: "64 word"
  Balance :: int
  Root :: hash
  CodeHash :: "byte list"

definition EmptyRootHash :: hash where
  "EmptyRootHash = 0x56e81f171bcc55a6ff8345e692c0f86e5b48e01b996cadc001622fb5e363b421"

definition EmptyCodeHash :: hash where
  "EmptyCodeHash = 0xc5d2460186f7233c927e7db2dcc703c0e500b653ca82273b7bfad8045d85a470"

definition ripemd :: address where
  "ripemd = 3"

text \<open>
  Modelled from the spec: the journal is "an external collaborator exposing
  \<open>append(undoAction)\<close>", "append-only"; its file is not among the sources. \<open>append\<close> adds
  the entry at the end and counts the entry's account as dirty, \<open>dirty\<close> only counts.
  Only the entries the modelled methods append are listed.
\<close>

datatype journalEntry =
    touchChange address
  | storageChange address hash hash
  | balanceChange address int

record journal =
  entries :: "journalEntry list"
  dirties :: "address \<Rightarrow> int"

fun dirtied :: "journalEntry \<Rightarrow> address" where
  "dirtied (touchChange a) = a"
| "dirtied (storageChange a k v) = a"
| "dirtied (balanceChange a b) = a"

definition journal_dirty :: "address \<Rightarrow> journal \<Rightarrow> journal" where
  "journal_dirty a j = j\<lparr>dirties := (dirties j)(a := dirties j a + 1)\<rparr>"

definition journal_append :: "journalEntry \<Rightarrow> journal \<Rightarrow> journal" where
  "journal_append e j = journal_dirty (dirtied e) (j\<lparr>entries := entries j @ [e]\<rparr>)"

text \<open>
  The interface \<open>Trie\<close> is an external collaborator: its methods are a parameter of the
  model, over an arbitrary type \<open>'t\<close> of trie states. A method that mutates the trie
  returns the trie after the call. \<open>'n\<close> is the type of the node sets \<open>Commit\<close> returns.
\<close>

record ('t, 'n) TrieOps =
  GetStorage :: "'t \<Rightarrow> address \<Rightarrow> byte list \<Rightarrow> byte list \<times> error option"
  UpdateStorage :: "'t \<Rightarrow> address \<Rightarrow> byte list \<Rightarrow> byte list \<Rightarrow> error option \<times> 't"
  DeleteStorage :: "'t \<Rightarrow> address \<Rightarrow> byte list \<Rightarrow> error option \<times> 't"
  Commit :: "'t \<Rightarrow> bool \<Rightarrow> (error + (hash \<times> 'n)) \<times> 't"
  Hash :: "'t \<Rightarrow> hash"

text \<open>
  The prefetcher is an asynchronous collaborator: \<open>fetched\<close> is what its method \<open>trie\<close>
  hands out (\<open>None\<close> for Go's \<open>nil\<close>), and the key lists passed to \<open>prefetch\<close> and \<open>used\<close>
  are recorded in the order of the calls.
\<close>

record 't triePrefetcher =
  fetched :: "hash \<Rightarrow> hash \<Rightarrow> 't option"
  prefetched :: "byte list list list"
  usedSlots :: "byte list list list"

text \<open>
  The fields and collaborators of \<open>StateDB\<close> a state object reaches through \<open>s.db\<close>:
  \<open>snap\<close> is the snapshot's method \<open>Storage\<close> (\<open>None\<close> when there is no snapshot layer),
  \<open>enableExpire\<close> is what \<open>EnableExpire()\<close> returns, \<open>hashData\<close> is Keccak-256
  (\<open>crypto.Keccak256Hash\<close> and \<open>crypto.HashData\<close> with the database's hasher),
  \<open>OpenStorageTrie\<close> and \<open>CopyTrie\<close> are the methods of \<open>s.db.db\<close>. In the tables
  \<open>storages\<close> and \<open>storagesOrigin\<close> Go's \<open>nil\<close> slice is the empty list.
\<close>

record 't StateDB =
  journal :: journal
  stateObjectsDestruct :: "address set"
  snap :: "(hash \<Rightarrow> hash \<Rightarrow> byte list \<times> error option) option"
  enableExpire :: bool
  epoch :: StateEpoch
  prefetcher :: "'t triePrefetcher option"
  originalRoot :: hash
  dbErr :: "error option"
  storages :: "hash \<rightharpoonup> (hash \<rightharpoonup> byte list)"
  storagesOrigin :: "address \<rightharpoonup> (hash \<rightharpoonup> byte list)"
  StorageDeleted :: int
  StorageUpdated :: int
  hashData :: "byte list \<Rightarrow> hash"
  OpenStorageTrie :: "hash \<Rightarrow> address \<Rightarrow> hash \<Rightarrow> error + 't"
  CopyTrie :: "'t \<Rightarrow> 't"

type_synonym Storage = "hash \<rightharpoonup> hash"

record 't stateObject =
  db :: "'t StateDB"
  address :: address
  addrHash :: hash
  origin :: "StateAccount option"
  data :: StateAccount
  trie :: "'t option"
  code :: "byte list option"
  originStorage :: Storage
  pendingStorage :: Storage
  dirtyStorage :: Storage
  pendingReviveTrie :: "'t option"
  pendingReviveState :: "byte list \<rightharpoonup> hash"
  pendingAccessedState :: "hash \<rightharpoonup> int"
  originStorageEpoch :: "hash \<rightharpoonup> StateEpoch"
  dirtyCode :: bool
  selfDestructed :: bool
  deleted :: bool
  created :: bool

text \<open>Reading a Go map at a missing key gives the zero value of the element type.\<close>

definition lookup0 :: "('k \<rightharpoonup> 'v::zero) \<Rightarrow> 'k \<Rightarrow> 'v" where
  "lookup0 m k = (case m k of None \<Rightarrow> 0 | Some v \<Rightarrow> v)"

text \<open>\<open>StateDB.setError\<close> keeps the first error.\<close>

definition setError :: "error \<Rightarrow> 't stateObject \<Rightarrow> 't stateObject" where
  "setError e s = (if dbErr (db s) = None then s\<lparr>db := (db s)\<lparr>dbErr := Some e\<rparr>\<rparr> else s)"

subsection \<open>Account attributes\<close>

definition empty_account :: "'t stateObject \<Rightarrow> bool" where
  "empty_account s =
     (Nonce (data s) = 0 \<and> Balance (data s) = 0 \<and> CodeHash (data s) = hash_bytes EmptyCodeHash)"

definition touch :: "'t stateObject \<Rightarrow> 't stateObject" where
  "touch s =
     (let s1 = s\<lparr>db := (db s)\<lparr>journal := journal_append (touchChange (address s)) (journal (db s))\<rparr>\<rparr>
      in if address s1 = ripemd
         then s1\<lparr>db := (db s1)\<lparr>journal := journal_dirty (address s1) (journal (db s1))\<rparr>\<rparr>
         else s1)"

definition setBalance :: "int \<Rightarrow> 't stateObject \<Rightarrow> 't stateObject" where
  "setBalance amount s = s\<lparr>data := (data s)\<lparr>Balance := amount\<rparr>\<rparr>"

definition SetBalance :: "int \<Rightarrow> 't stateObject \<Rightarrow> 't stateObject" where
  "SetBalance amount s =
     setBalance amount
       (s\<lparr>db := (db s)\<lparr>journal :=
            journal_append (balanceChange (address s) (Balance (data s))) (journal (db s))\<rparr>\<rparr>)"

definition AddBalance :: "int \<Rightarrow> 't stateObject \<Rightarrow> 't stateObject" where
  "AddBalance amount s =
     (if amount = 0 then (if empty_account s then touch s else s)
      else SetBalance (Balance (data s) + amount) s)"

definition SubBalance :: "int \<Rightarrow> 't stateObject \<Rightarrow> 't stateObject" where
  "SubBalance amount s =
     (if amount = 0 then s else SetBalance (Balance (data s) - amount) s)"

subsection \<open>The read path\<close>

text \<open>
  \<open>getTrie\<close> opens the storage trie on first use: from the prefetcher when the root is
  not the empty root and a prefetcher is there, else from the database.
\<close>

definition getTrie :: "'t stateObject \<Rightarrow> (error + 't) \<times> 't stateObject" where
  "getTrie s =
     (case trie s of
        Some tr \<Rightarrow> (Inr tr, s)
      | None \<Rightarrow>
          (let pre =
             (if Root (data s) \<noteq> EmptyRootHash
              then (case prefetcher (db s) of
                      None \<Rightarrow> None
                    | Some p \<Rightarrow> fetched p (addrHash s) (Root (data s)))
              else None)
           in case pre of
                Some tr \<Rightarrow> (Inr tr, s\<lparr>trie := Some tr\<rparr>)
              | None \<Rightarrow>
                  (case OpenStorageTrie (db s) (originalRoot (db s)) (address s) (Root (data s)) of
                     Inl err \<Rightarrow> (Inl err, s)
                   | Inr tr \<Rightarrow> (Inr tr, s\<lparr>trie := Some tr\<rparr>))))"

definition getPendingReviveTrie :: "'t stateObject \<Rightarrow> (error + 't) \<times> 't stateObject" where
  "getPendingReviveTrie s =
     (case pendingReviveTrie s of
        Some tr \<Rightarrow> (Inr tr, s)
      | None \<Rightarrow>
          (case getTrie s of
             (Inl err, s1) \<Rightarrow> (Inl err, s1)
           | (Inr src, s1) \<Rightarrow>
               (let tr = CopyTrie (db s1) src
                in (Inr tr, s1\<lparr>pendingReviveTrie := Some tr\<rparr>))))"

definition queryFromReviveState ::
    "'t stateObject \<Rightarrow> (byte list \<rightharpoonup> hash) \<Rightarrow> hash \<Rightarrow> hash option" where
  "queryFromReviveState s reviveState key =
     reviveState (hash_bytes (hashData (db s) (hash_bytes key)))"

definition needLoadFromTrie :: "'t stateObject \<Rightarrow> byte list \<Rightarrow> error option \<Rightarrow> bool" where
  "needLoadFromTrie s enc err =
     (if snap (db s) = None then True
      else if \<not> enableExpire (db s) then err \<noteq> None
      else if err \<noteq> None \<or> length enc = 0 then True
      else False)"

definition accessState :: "hash \<Rightarrow> 't stateObject \<Rightarrow> 't stateObject" where
  "accessState key s =
     (if \<not> enableExpire (db s) then s
      else if epoch (db s) > lookup0 (originStorageEpoch s) key
      then (let count = lookup0 (pendingAccessedState s) key
            in s\<lparr>pendingAccessedState := (pendingAccessedState s)(key \<mapsto> count + 1)\<rparr>)
      else s)"

text \<open>
  The snapshot part of \<open>GetCommittedState\<close> (the block under \<open>if s.db.snap != nil\<close>):
  it returns the bytes and the error that \<open>needLoadFromTrie\<close> will see, and the value
  read so far. In expiry mode a "storage expired" error is dropped, and the result of
  the decoder is assigned to the same \<open>err\<close>; without expiry the error of \<open>rlp.Split\<close> is
  a new variable that only reaches \<open>setError\<close>. \<open>value.SetBytes(sv.GetVal())\<close> passes a
  hash where a byte slice is expected; it is read as passing the hash's bytes.
\<close>

definition readSnapshot ::
    "hash \<Rightarrow> 't stateObject \<Rightarrow> (byte list \<times> error option \<times> hash) \<times> 't stateObject" where
  "readSnapshot key s =
     (case snap (db s) of
        None \<Rightarrow> (([], None, 0), s)
      | Some storage \<Rightarrow>
          (let (enc, err) = storage (addrHash s) (hashData (db s) (hash_bytes key))
           in if enableExpire (db s) then
                (let err1 = (if err = Some ErrStorageExpired then None else err)
                 in if length enc > 0 then
                      (case DecodeValueFromRLPBytes enc of
                         Return (Inr sv) \<Rightarrow>
                           ((enc, None, SetBytes 0 (hash_bytes (GetVal sv))),
                            s\<lparr>originStorageEpoch := (originStorageEpoch s)(key \<mapsto> GetEpoch sv)\<rparr>)
                       | Return (Inl e) \<Rightarrow> (([], Some e, 0), s)
                       | Panic \<Rightarrow> (([], err1, 0), s))
                    else ((enc, err1, 0), s))
              else
                (if length enc > 0 then
                   (case Split enc of
                      Inl e \<Rightarrow> ((enc, err, SetBytes 0 []), setError (RlpError e) s)
                    | Inr (k, content, rest) \<Rightarrow> ((enc, err, SetBytes 0 content), s))
                 else ((enc, err, 0), s))))"

definition GetCommittedState ::
    "('t, 'n) TrieOps \<Rightarrow> hash \<Rightarrow> 't stateObject \<Rightarrow> hash \<times> 't stateObject" where
  "GetCommittedState ops key s =
     (case pendingStorage s key of
        Some v \<Rightarrow> (v, s)
      | None \<Rightarrow>
          (case (if enableExpire (db s)
                 then queryFromReviveState s (pendingReviveState s) key else None) of
             Some revived \<Rightarrow> (revived, s)
           | None \<Rightarrow>
               (case originStorage s key of
                  Some v \<Rightarrow> (v, s)
                | None \<Rightarrow>
                    if address s \<in> stateObjectsDestruct (db s) then (0, s)
                    else
                      (let ((enc, err, v), s1) = readSnapshot key s
                       in if needLoadFromTrie s1 enc err then
                            (case getTrie s1 of
                               (Inl e, s2) \<Rightarrow> (0, setError e s2)
                             | (Inr tr, s2) \<Rightarrow>
                                 (let (val, err2) = GetStorage ops tr (address s2) (hash_bytes key);
                                      err3 = (if enableExpire (db s2) \<and> err2 = Some ErrStorageExpired
                                              then None else err2)
                                  in case err3 of
                                       Some e \<Rightarrow> (0, setError e s2)
                                     | None \<Rightarrow>
                                         (let v2 = SetBytes v val
                                          in (v2, s2\<lparr>originStorage := (originStorage s2)(key \<mapsto> v2)\<rparr>))))
                          else (v, s1\<lparr>originStorage := (originStorage s1)(key \<mapsto> v)\<rparr>)))))"

definition GetState ::
    "('t, 'n) TrieOps \<Rightarrow> hash \<Rightarrow> 't stateObject \<Rightarrow> hash \<times> 't stateObject" where
  "GetState ops key s =
     (case dirtyStorage s key of
        Some v \<Rightarrow> (v, s)
      | None \<Rightarrow>
          (let (v, s1) = GetCommittedState ops key s
           in if v \<noteq> 0 then (v, accessState key s1) else (v, s1)))"

subsection \<open>The write path\<close>

definition setState :: "hash \<Rightarrow> hash \<Rightarrow> 't stateObject \<Rightarrow> 't stateObject" where
  "setState key v s = s\<lparr>dirtyStorage := (dirtyStorage s)(key \<mapsto> v)\<rparr>"

definition SetState ::
    "('t, 'n) TrieOps \<Rightarrow> hash \<Rightarrow> hash \<Rightarrow> 't stateObject \<Rightarrow> 't stateObject" where
  "SetState ops key v s =
     (let (prev, s1) = GetState ops key s
      in if prev = v then s1
         else setState key v
                (s1\<lparr>db := (db s1)\<lparr>journal :=
                     journal_append (storageChange (address s1) key prev) (journal (db s1))\<rparr>\<rparr>))"

subsection \<open>The commit pipeline\<close>

text \<open>
  Go ranges over a map in an unspecified order. Each loop over a map takes the order as
  a list of keys, and passes over a key of the list that the map does not hold.
\<close>

fun forEach :: "('k \<Rightarrow> 'st \<Rightarrow> 'e + 'st) \<Rightarrow> 'k list \<Rightarrow> 'st \<Rightarrow> 'e + 'st" where
  "forEach f [] st = Inr st"
| "forEach f (k # ks) st = (case f k st of Inl e \<Rightarrow> Inl e | Inr st' \<Rightarrow> forEach f ks st')"

fun finaliseLoop ::
    "hash list \<Rightarrow> 't stateObject \<times> byte list list \<Rightarrow> 't stateObject \<times> byte list list" where
  "finaliseLoop [] st = st"
| "finaliseLoop (key # ks) (s, slotsToPrefetch) =
     (case dirtyStorage s key of
        None \<Rightarrow> finaliseLoop ks (s, slotsToPrefetch)
      | Some v \<Rightarrow>
          finaliseLoop ks
            (s\<lparr>pendingStorage := (pendingStorage s)(key \<mapsto> v)\<rparr>,
             if v \<noteq> lookup0 (originStorage s) key then slotsToPrefetch @ [hash_bytes key]
             else slotsToPrefetch))"

definition finalise :: "bool \<Rightarrow> hash list \<Rightarrow> 't stateObject \<Rightarrow> 't stateObject" where
  "finalise prefetch ks s =
     (let (s1, slotsToPrefetch) = finaliseLoop ks (s, []);
          s2 = (case prefetcher (db s1) of
                  None \<Rightarrow> s1
                | Some p \<Rightarrow>
                    if prefetch \<and> length slotsToPrefetch > 0 \<and> Root (data s1) \<noteq> EmptyRootHash
                    then s1\<lparr>db := (db s1)\<lparr>prefetcher :=
                           Some (p\<lparr>prefetched := prefetched p @ [slotsToPrefetch]\<rparr>)\<rparr>\<rparr>
                    else s1)
      in if dirtyStorage s2 \<noteq> Map.empty then s2\<lparr>dirtyStorage := Map.empty\<rparr> else s2)"

definition needUpdateTrie :: "'t stateObject \<Rightarrow> bool" where
  "needUpdateTrie s =
     (if \<not> enableExpire (db s) then pendingStorage s \<noteq> Map.empty
      else pendingStorage s \<noteq> Map.empty \<or> pendingReviveState s \<noteq> Map.empty \<or>
           pendingAccessedState s \<noteq> Map.empty)"

text \<open>
  In \<open>updateTrie\<close> the local \<open>tr\<close> points to the trie the object holds in
  \<open>pendingReviveTrie\<close> (expiry mode) or in \<open>trie\<close>: a call on \<open>tr\<close> changes that field.
\<close>

definition setWorkingTrie :: "'t \<Rightarrow> 't stateObject \<Rightarrow> 't stateObject" where
  "setWorkingTrie tr s =
     (if enableExpire (db s) then s\<lparr>pendingReviveTrie := Some tr\<rparr> else s\<lparr>trie := Some tr\<rparr>)"

text \<open>
  "Cache the mutated storage slots until commit": the locals \<open>storage\<close> and \<open>origin\<close> are
  the inner maps of \<open>s.db.storages[s.addrHash]\<close> and \<open>s.db.storagesOrigin[s.address]\<close>,
  made on first use.
\<close>

definition cacheMutated :: "hash \<Rightarrow> byte list \<Rightarrow> 't stateObject \<Rightarrow> 't stateObject" where
  "cacheMutated khash snapshotVal s =
     (let storage = (case storages (db s) (addrHash s) of None \<Rightarrow> Map.empty | Some m \<Rightarrow> m)
      in s\<lparr>db := (db s)\<lparr>storages :=
             (storages (db s))(addrHash s \<mapsto> storage(khash \<mapsto> snapshotVal))\<rparr>\<rparr>)"

definition cacheOrigin :: "hash \<Rightarrow> hash \<Rightarrow> 't stateObject \<Rightarrow> 't stateObject" where
  "cacheOrigin khash prev s =
     (let origin = (case storagesOrigin (db s) (address s) of None \<Rightarrow> Map.empty | Some m \<Rightarrow> m);
          origin1 =
            (case origin khash of
               Some b \<Rightarrow> origin
             | None \<Rightarrow>
                 origin(khash \<mapsto>
                   (if prev = 0 then [] else writeBytes (TrimLeftZeroes (hash_bytes prev)))))
      in s\<lparr>db := (db s)\<lparr>storagesOrigin := (storagesOrigin (db s))(address s \<mapsto> origin1)\<rparr>\<rparr>)"

text \<open>
  \<open>snapshotVal, _ = snapshot.EncodeValueToRLPBytes(snapshot.NewValueWithEpoch(s.db.epoch,
  trimmedVal))\<close>: the trimmed bytes stand where \<open>NewValueWithEpoch\<close> takes a hash; they are
  read as converted by \<open>common.BytesToHash\<close>. On an error the bytes stay nil.
\<close>

definition encodeWithEpoch :: "StateEpoch \<Rightarrow> byte list \<Rightarrow> byte list" where
  "encodeWithEpoch e trimmedVal =
     (case EncodeValueToRLPBytes (ValueWithEpoch e (BytesToHash trimmedVal)) of
        Inl err \<Rightarrow> []
      | Inr b \<Rightarrow> b)"

type_synonym 't loopState = "'t stateObject \<times> 't \<times> (hash \<rightharpoonup> unit) \<times> byte list list"

text \<open>The body of the loop over \<open>s.pendingStorage\<close>.\<close>

definition pendingStep ::
    "('t, 'n) TrieOps \<Rightarrow> hash \<Rightarrow> 't loopState \<Rightarrow> (error \<times> 't stateObject) + 't loopState" where
  "pendingStep ops key st =
     (case st of (s, tr, accessStorage, usedStorage) \<Rightarrow>
        (case pendingStorage s key of
           None \<Rightarrow> Inr st
         | Some v \<Rightarrow>
             if v = lookup0 (originStorage s) key then Inr st
             else
               (let prev = lookup0 (originStorage s) key;
                    s1 = s\<lparr>originStorage := (originStorage s)(key \<mapsto> v)\<rparr>;
                    acc1 = (if enableExpire (db s1) then accessStorage(key := None)
                            else accessStorage);
                    trimmedVal = TrimLeftZeroes (hash_bytes v);
                    snapshotVal =
                      (if v = 0 then []
                       else if enableExpire (db s1) then encodeWithEpoch (epoch (db s1)) trimmedVal
                       else writeBytes trimmedVal);
                    (err, tr1) =
                      (if v = 0 then DeleteStorage ops tr (address s1) (hash_bytes key)
                       else UpdateStorage ops tr (address s1) (hash_bytes key) trimmedVal);
                    s2 = setWorkingTrie tr1 s1
                in case err of
                     Some e \<Rightarrow> Inl (e, setError e s2)
                   | None \<Rightarrow>
                       (let s3 = (if v = 0
                                  then s2\<lparr>db := (db s2)\<lparr>StorageDeleted := StorageDeleted (db s2) + 1\<rparr>\<rparr>
                                  else s2\<lparr>db := (db s2)\<lparr>StorageUpdated := StorageUpdated (db s2) + 1\<rparr>\<rparr>);
                            khash = hashData (db s3) (hash_bytes key);
                            s4 = cacheOrigin khash prev (cacheMutated khash snapshotVal s3)
                        in Inr (s4, tr1, acc1, usedStorage @ [hash_bytes key])))))"

text \<open>The body of the loop over \<open>accessStorage\<close> ("update accessed slots epoch").\<close>

definition accessStep ::
    "('t, 'n) TrieOps \<Rightarrow> hash \<Rightarrow> 't loopState \<Rightarrow> (error \<times> 't stateObject) + 't loopState" where
  "accessStep ops key st =
     (case st of (s, tr, accessStorage, usedStorage) \<Rightarrow>
        (case accessStorage key of
           None \<Rightarrow> Inr st
         | Some u \<Rightarrow>
             (let (v, s1) = GetState ops key s;
                  trimmedVal = TrimLeftZeroes (hash_bytes v);
                  snapshotVal = encodeWithEpoch (epoch (db s1)) trimmedVal;
                  (err, tr1) = UpdateStorage ops tr (address s1) (hash_bytes key) trimmedVal;
                  s2 = setWorkingTrie tr1 s1
              in case err of
                   Some e \<Rightarrow> Inl (e, setError e s2)
                 | None \<Rightarrow>
                     (let s3 = s2\<lparr>db := (db s2)\<lparr>StorageUpdated := StorageUpdated (db s2) + 1\<rparr>\<rparr>;
                          khash = hashData (db s3) (hash_bytes key);
                          s4 = cacheMutated khash snapshotVal s3
                      in Inr (s4, tr1, accessStorage, usedStorage @ [hash_bytes key])))))"

text \<open>
  What \<open>updateTrie\<close> returns besides the error: nil, the trie the object still holds in
  \<open>trie\<close>, or (expiry mode) the revive trie, which the object has let go of, keeping a
  copy in \<open>trie\<close>.
\<close>

datatype 't trieRef = NilTrie | OwnTrie 't | DetachedTrie 't

definition updateTrieEnd :: "'t loopState \<Rightarrow> 't trieRef \<times> 't stateObject" where
  "updateTrieEnd st =
     (case st of (s, tr, accessStorage, usedStorage) \<Rightarrow>
        (let s1 = (case prefetcher (db s) of
                     None \<Rightarrow> s
                   | Some p \<Rightarrow>
                       s\<lparr>db := (db s)\<lparr>prefetcher :=
                            Some (p\<lparr>usedSlots := usedSlots p @ [usedStorage]\<rparr>)\<rparr>\<rparr>);
             s2 = (if pendingStorage s1 \<noteq> Map.empty then s1\<lparr>pendingStorage := Map.empty\<rparr> else s1)
         in if enableExpire (db s2) then
              (DetachedTrie tr,
               s2\<lparr>pendingReviveState := Map.empty, pendingAccessedState := Map.empty,
                   originStorageEpoch := Map.empty, pendingReviveTrie := None,
                   trie := Some (CopyTrie (db s2) tr)\<rparr>)
            else (OwnTrie tr, s2)))"

definition updateTrie ::
    "('t, 'n) TrieOps \<Rightarrow> hash list \<Rightarrow> hash list \<Rightarrow> hash list \<Rightarrow> 't stateObject
       \<Rightarrow> (error + 't trieRef) \<times> 't stateObject" where
  "updateTrie ops dirtyOrder pendingOrder accessOrder s0 =
     (let s = finalise False dirtyOrder s0
      in if \<not> needUpdateTrie s then
           (Inr (case trie s of None \<Rightarrow> NilTrie | Some t \<Rightarrow> OwnTrie t), s)
         else
           (case (if enableExpire (db s) then getPendingReviveTrie s else getTrie s) of
              (Inl err, s1) \<Rightarrow> (Inl err, setError err s1)
            | (Inr tr, s1) \<Rightarrow>
                (let accessStorage =
                       (if enableExpire (db s1)
                        then (\<lambda>k. map_option (\<lambda>c. ()) (pendingAccessedState s1 k))
                        else Map.empty)
                 in case forEach (pendingStep ops) pendingOrder (s1, tr, accessStorage, []) of
                      Inl (err, s2) \<Rightarrow> (Inl err, s2)
                    | Inr st2 \<Rightarrow>
                        (case (if enableExpire (db (fst st2))
                               then forEach (accessStep ops) accessOrder st2 else Inr st2) of
                           Inl (err, s3) \<Rightarrow> (Inl err, s3)
                         | Inr st3 \<Rightarrow>
                             (case updateTrieEnd st3 of (h, s4) \<Rightarrow> (Inr h, s4))))))"

definition updateRoot ::
    "('t, 'n) TrieOps \<Rightarrow> hash list \<Rightarrow> hash list \<Rightarrow> hash list \<Rightarrow> 't stateObject \<Rightarrow> 't stateObject" where
  "updateRoot ops dirtyOrder pendingOrder accessOrder s0 =
     (case updateTrie ops dirtyOrder pendingOrder accessOrder s0 of
        (Inl err, s) \<Rightarrow> s
      | (Inr NilTrie, s) \<Rightarrow> s
      | (Inr (OwnTrie tr), s) \<Rightarrow> s\<lparr>data := (data s)\<lparr>Root := Hash ops tr\<rparr>\<rparr>
      | (Inr (DetachedTrie tr), s) \<Rightarrow> s\<lparr>data := (data s)\<lparr>Root := Hash ops tr\<rparr>\<rparr>)"

text \<open>
  \<open>commit\<close> returns the node set (\<open>None\<close> for nil) or the error. \<open>tr.Commit\<close> acts on the
  trie \<open>updateTrie\<close> returned: on the object's own trie when that is the one.
\<close>

definition commit ::
    "('t, 'n) TrieOps \<Rightarrow> hash list \<Rightarrow> hash list \<Rightarrow> hash list \<Rightarrow> 't stateObject
       \<Rightarrow> (error + 'n option) \<times> 't stateObject" where
  "commit ops dirtyOrder pendingOrder accessOrder s0 =
     (case updateTrie ops dirtyOrder pendingOrder accessOrder s0 of
        (Inl err, s) \<Rightarrow> (Inl err, s)
      | (Inr NilTrie, s) \<Rightarrow> (Inr None, s\<lparr>origin := Some (data s)\<rparr>)
      | (Inr (OwnTrie tr), s) \<Rightarrow>
          (case Commit ops tr False of
             (Inl err, tr1) \<Rightarrow> (Inl err, s\<lparr>trie := Some tr1\<rparr>)
           | (Inr (root, nodes), tr1) \<Rightarrow>
               (let s1 = s\<lparr>trie := Some tr1, data := (data s)\<lparr>Root := root\<rparr>\<rparr>
                in (Inr (Some nodes), s1\<lparr>origin := Some (data s1)\<rparr>)))
      | (Inr (DetachedTrie tr), s) \<Rightarrow>
          (case Commit ops tr False of
             (Inl err, tr1) \<Rightarrow> (Inl err, s)
           | (Inr (root, nodes), tr1) \<Rightarrow>
               (let s1 = s\<lparr>data := (data s)\<lparr>Root := root\<rparr>\<rparr>
                in (Inr (Some nodes), s1\<lparr>origin := Some (data s1)\<rparr>))))"

section \<open>Facts about big-endian bytes and hashes\<close>

lemma be_bytes_numeral:
  "be_bytes (numeral k) x = be_bytes (pred_numeral k) (x div 256) @ [of_nat (x mod 256)]"
  by (simp only: numeral_eq_Suc [of k] be_bytes.simps)

lemma be_nat_Nil [simp]: "be_nat [] = 0"
  by (simp add: be_nat_def)

lemma be_nat_snoc [simp]: "be_nat (bs @ [b]) = 256 * be_nat bs + unat b"
  by (simp add: be_nat_def)

lemma be_nat_append: "be_nat (xs @ ys) = be_nat xs * 256 ^ length ys + be_nat ys"
proof (induction ys rule: rev_induct)
  case Nil
  then show ?case by simp
next
  case (snoc y ys)
  have "be_nat (xs @ ys @ [y]) = 256 * be_nat (xs @ ys) + unat y"
    using be_nat_snoc [of "xs @ ys" y] by simp
  then show ?case using snoc by (simp add: algebra_simps)
qed

lemma be_nat_Cons: "be_nat (b # bs) = unat b * 256 ^ length bs + be_nat bs"
  using be_nat_append [of "[b]" bs] be_nat_snoc [of "[]" b] by simp

lemma unat_byte_lt: "unat (b :: byte) < 256"
  using unsigned_less [of b, where 'a = nat] by simp

lemma be_nat_lt: "be_nat bs < 256 ^ length bs"
proof (induction bs rule: rev_induct)
  case Nil
  then show ?case by simp
next
  case (snoc b bs)
  have "256 * be_nat bs + unat b < 256 * be_nat bs + 256"
    using unat_byte_lt [of b] by simp
  also have "\<dots> = 256 * (be_nat bs + 1)" by simp
  also have "\<dots> \<le> 256 * 256 ^ length bs"
    using snoc by (intro mult_le_mono2) simp
  finally show ?case by simp
qed

lemma length_be_bytes [simp]: "length (be_bytes n x) = n"
  by (induction n arbitrary: x) simp_all

lemma be_nat_be_bytes: "be_nat (be_bytes n x) = x mod 256 ^ n"
proof (induction n arbitrary: x)
  case 0
  then show ?case by simp
next
  case (Suc n)
  have "be_nat (be_bytes (Suc n) x) = 256 * (x div 256 mod 256 ^ n) + x mod 256"
    using Suc [of "x div 256"] by (simp add: unat_of_nat)
  also have "\<dots> = x mod 256 ^ Suc n"
    by (simp add: mod_mult2_eq)
  finally show ?case .
qed

lemma be_bytes_be_nat: "be_bytes (length bs) (be_nat bs) = bs"
proof (induction bs rule: rev_induct)
  case Nil
  then show ?case by simp
next
  case (snoc b bs)
  have "(256 * be_nat bs + unat b) div 256 = be_nat bs"
    using unat_byte_lt [of b] by simp
  moreover have "(256 * be_nat bs + unat b) mod 256 = unat b"
    using unat_byte_lt [of b] by simp
  ultimately show ?case using snoc by simp
qed

lemma length_hash_bytes [simp]: "length (hash_bytes h) = 32"
  by (simp only: hash_bytes_def length_be_bytes)

lemma unat_hash_lt: "unat (h :: hash) < 256 ^ 32"
  using unsigned_less [of h, where 'a = nat] by simp

lemma hash_of_bytes_hash_bytes [simp]: "hash_of_bytes (hash_bytes h) = h"
proof -
  have "be_nat (be_bytes 32 (unat h)) = unat h"
    using unat_hash_lt [of h] by (simp only: be_nat_be_bytes mod_less)
  then have "hash_of_bytes (hash_bytes h) = of_nat (unat h)"
    by (simp only: hash_of_bytes_def hash_bytes_def)
  then show ?thesis by simp
qed

lemma hash_bytes_hash_of_bytes: "length bs = 32 \<Longrightarrow> hash_bytes (hash_of_bytes bs) = bs"
proof -
  assume l: "length bs = 32"
  have "be_nat bs < 256 ^ 32" using be_nat_lt [of bs] l by simp
  then have "unat (of_nat (be_nat bs) :: hash) = be_nat bs"
    by (simp add: unat_of_nat)
  then show ?thesis
    using be_bytes_be_nat [of bs] l by (simp only: hash_bytes_def hash_of_bytes_def)
qed

lemma SetBytes_Nil [simp]: "SetBytes h [] = h"
  by (simp add: SetBytes_def)

lemma be_nat_zeros [simp]: "be_nat (replicate k 0 @ bs) = be_nat bs"
  by (induction k) (simp_all add: be_nat_Cons)

lemma be_nat_dropWhile [simp]: "be_nat (dropWhile (\<lambda>b. b = 0) bs) = be_nat bs"
  by (induction bs) (simp_all add: be_nat_Cons)

lemma hash_bytes_zero: "hash_bytes 0 = replicate 32 0"
proof -
  have "be_bytes n 0 = replicate n 0" for n
    by (induction n) (simp_all add: replicate_append_same)
  then show ?thesis by (simp only: hash_bytes_def unat_0)
qed

lemma BytesToHash_short: "length b \<le> 32 \<Longrightarrow> BytesToHash b = hash_of_bytes b"
  by (simp add: BytesToHash_def SetBytes_def hash_bytes_zero hash_of_bytes_def)

lemma length_TrimLeftZeroes: "length (TrimLeftZeroes bs) \<le> length bs"
  by (simp add: TrimLeftZeroes_def length_dropWhile_le)

lemma BytesToHash_TrimLeftZeroes [simp]: "BytesToHash (TrimLeftZeroes (hash_bytes h)) = h"
proof -
  have "length (TrimLeftZeroes (hash_bytes h)) \<le> 32"
    using length_TrimLeftZeroes [of "hash_bytes h"] by simp
  then have "BytesToHash (TrimLeftZeroes (hash_bytes h)) = hash_of_bytes (TrimLeftZeroes (hash_bytes h))"
    by (rule BytesToHash_short)
  also have "\<dots> = hash_of_bytes (hash_bytes h)"
    by (simp add: hash_of_bytes_def TrimLeftZeroes_def)
  finally show ?thesis by simp
qed

section \<open>What a read leaves alone\<close>

text \<open>
  \<open>read_frame s s'\<close>: \<open>s'\<close> differs from \<open>s\<close> at most in the caches a read fills
  (\<open>originStorage\<close>, \<open>originStorageEpoch\<close>, \<open>pendingAccessedState\<close>), in the trie handle and in
  the database's error.
\<close>

definition read_frame :: "'t stateObject \<Rightarrow> 't stateObject \<Rightarrow> bool" where
  "read_frame s s' =
     (address s' = address s \<and> addrHash s' = addrHash s \<and> origin s' = origin s \<and>
      data s' = data s \<and> code s' = code s \<and> pendingStorage s' = pendingStorage s \<and>
      dirtyStorage s' = dirtyStorage s \<and> pendingReviveTrie s' = pendingReviveTrie s \<and>
      pendingReviveState s' = pendingReviveState s \<and> dirtyCode s' = dirtyCode s \<and>
      selfDestructed s' = selfDestructed s \<and> deleted s' = deleted s \<and>
      created s' = created s \<and> db s' = (db s)\<lparr>dbErr := dbErr (db s')\<rparr>)"

lemma read_frame_refl: "read_frame s s"
  by (simp add: read_frame_def)

lemma read_frame_trans: "read_frame s s1 \<Longrightarrow> read_frame s1 s2 \<Longrightarrow> read_frame s s2"
  unfolding read_frame_def
  apply (elim conjE, intro conjI)
               apply simp_all
  apply (cases "db s", cases "db s1", cases "db s2")
  apply simp
  done

lemma read_frame_setError: "read_frame s (setError e s)"
  by (simp add: read_frame_def setError_def)

lemma read_frame_getTrie: "getTrie s = (r, s') \<Longrightarrow> read_frame s s'"
  by (auto simp: getTrie_def read_frame_def Let_def split: option.splits sum.splits if_splits)

lemma read_frame_readSnapshot: "readSnapshot key s = (r, s') \<Longrightarrow> read_frame s s'"
  by (auto simp: readSnapshot_def read_frame_def setError_def Let_def
      split: option.splits sum.splits if_splits prod.splits outcome.splits)

lemma read_frame_accessState: "read_frame s (accessState key s)"
  by (simp add: read_frame_def accessState_def Let_def)

lemma read_frame_originStorage: "read_frame s (s\<lparr>originStorage := m\<rparr>)"
  by (simp add: read_frame_def)

lemma read_frame_GetCommittedState:
  assumes "GetCommittedState ops key s = (v, s')"
  shows "read_frame s s'"
  using assms
  unfolding GetCommittedState_def
  by (auto simp: Let_def split: option.splits if_splits prod.splits sum.splits
      intro: read_frame_refl
      dest!: read_frame_getTrie read_frame_readSnapshot
      intro!: read_frame_trans[OF _ read_frame_originStorage] read_frame_trans[OF _ read_frame_setError]
      elim: read_frame_trans)

lemma read_frame_GetState:
  "GetState ops key s = (v, s') \<Longrightarrow> read_frame s s'"
  unfolding GetState_def
  by (auto simp: Let_def split: option.splits prod.splits if_splits
      dest!: read_frame_GetCommittedState
      intro: read_frame_refl read_frame_trans[OF _ read_frame_accessState])

lemma read_frame_eq:
  "read_frame s s' \<Longrightarrow>
     s' = s\<lparr>originStorage := originStorage s', originStorageEpoch := originStorageEpoch s',
            pendingAccessedState := pendingAccessedState s', trie := trie s',
            db := (db s)\<lparr>dbErr := dbErr (db s')\<rparr>\<rparr>"
  by (cases s, cases s') (simp add: read_frame_def)

lemma read_frame_enableExpire:
  "read_frame s s' \<Longrightarrow> enableExpire (db s') = enableExpire (db s)"
  by (cases "db s", cases "db s'") (simp add: read_frame_def)

lemma read_frame_journal:
  "read_frame s s' \<Longrightarrow> journal (db s') = journal (db s)"
  by (cases "db s", cases "db s'") (simp add: read_frame_def)

text \<open>\<open>GetCommittedState\<close> does not count accesses, and stamps epochs only in expiry mode.\<close>

definition same_access :: "'t stateObject \<Rightarrow> 't stateObject \<Rightarrow> bool" where
  "same_access s s' =
     (pendingAccessedState s' = pendingAccessedState s \<and>
      (\<not> enableExpire (db s) \<longrightarrow> originStorageEpoch s' = originStorageEpoch s) \<and>
      enableExpire (db s') = enableExpire (db s))"

lemma same_access_refl: "same_access s s"
  by (simp add: same_access_def)

lemma same_access_trans: "same_access s s1 \<Longrightarrow> same_access s1 s2 \<Longrightarrow> same_access s s2"
  by (simp add: same_access_def)

lemma same_access_setError: "same_access s (setError e s)"
  by (simp add: same_access_def setError_def)

lemma same_access_originStorage: "same_access s (s\<lparr>originStorage := m\<rparr>)"
  by (simp add: same_access_def)

lemma same_access_getTrie: "getTrie s = (r, s') \<Longrightarrow> same_access s s'"
  by (auto simp: getTrie_def same_access_def Let_def split: option.splits sum.splits if_splits)

lemma same_access_readSnapshot: "readSnapshot key s = (r, s') \<Longrightarrow> same_access s s'"
  by (auto simp: readSnapshot_def same_access_def setError_def Let_def
      split: option.splits sum.splits if_splits prod.splits outcome.splits)

lemma same_access_GetCommittedState:
  assumes "GetCommittedState ops key s = (v, s')"
  shows "same_access s s'"
  using assms
  unfolding GetCommittedState_def
  by (auto simp: Let_def split: option.splits if_splits prod.splits sum.splits
      intro: same_access_refl
      dest!: same_access_getTrie same_access_readSnapshot
      intro!: same_access_trans[OF _ same_access_originStorage] same_access_trans[OF _ same_access_setError]
      elim: same_access_trans)

section \<open>The value a read returns\<close>

text \<open>
  The value \<open>GetCommittedState\<close> returns, as a function of the state: the same case
  analysis without the caching.
\<close>

definition committedValue :: "('t, 'n) TrieOps \<Rightarrow> hash \<Rightarrow> 't stateObject \<Rightarrow> hash" where
  "committedValue ops key s =
     (case pendingStorage s key of
        Some v \<Rightarrow> v
      | None \<Rightarrow>
          (case (if enableExpire (db s)
                 then queryFromReviveState s (pendingReviveState s) key else None) of
             Some revived \<Rightarrow> revived
           | None \<Rightarrow>
               (case originStorage s key of
                  Some v \<Rightarrow> v
                | None \<Rightarrow>
                    if address s \<in> stateObjectsDestruct (db s) then 0
                    else
                      (case fst (readSnapshot key s) of (enc, err, v) \<Rightarrow>
                         if needLoadFromTrie s enc err then
                           (case fst (getTrie s) of
                              Inl e \<Rightarrow> 0
                            | Inr tr \<Rightarrow>
                                (case GetStorage ops tr (address s) (hash_bytes key) of
                                   (val, err2) \<Rightarrow>
                                     if (if enableExpire (db s) \<and> err2 = Some ErrStorageExpired
                                         then None else err2) = None
                                     then SetBytes v val else 0))
                         else v))))"

definition readValue :: "('t, 'n) TrieOps \<Rightarrow> hash \<Rightarrow> 't stateObject \<Rightarrow> hash" where
  "readValue ops key s =
     (case dirtyStorage s key of Some v \<Rightarrow> v | None \<Rightarrow> committedValue ops key s)"

lemma getTrie_congr:
  assumes "trie s' = trie s" "data s' = data s" "address s' = address s" "addrHash s' = addrHash s"
    "prefetcher (db s') = prefetcher (db s)" "OpenStorageTrie (db s') = OpenStorageTrie (db s)"
    "originalRoot (db s') = originalRoot (db s)"
  shows "fst (getTrie s') = fst (getTrie s)"
  using assms by (simp add: getTrie_def Let_def split: option.splits sum.splits)

lemma read_frame_db_fields:
  assumes "read_frame s s'"
  shows "prefetcher (db s') = prefetcher (db s)" "OpenStorageTrie (db s') = OpenStorageTrie (db s)"
    "originalRoot (db s') = originalRoot (db s)" "snap (db s') = snap (db s)"
    "enableExpire (db s') = enableExpire (db s)" "hashData (db s') = hashData (db s)"
    "stateObjectsDestruct (db s') = stateObjectsDestruct (db s)" "epoch (db s') = epoch (db s)"
    "storages (db s') = storages (db s)" "CopyTrie (db s') = CopyTrie (db s)"
  using assms by (cases "db s", cases "db s'", simp add: read_frame_def)+

lemma getTrie_again: "getTrie s = (r, s') \<Longrightarrow> fst (getTrie s') = r"
  by (auto simp: getTrie_def Let_def split: option.splits sum.splits if_splits)

lemma readSnapshot_getTrie:
  assumes "readSnapshot key s = (r, s')"
  shows "fst (getTrie s') = fst (getTrie s)"
proof -
  have fr: "read_frame s s'" using assms by (rule read_frame_readSnapshot)
  have "trie s' = trie s"
    using assms by (auto simp: readSnapshot_def setError_def Let_def
        split: option.splits sum.splits if_splits prod.splits outcome.splits)
  then show ?thesis
    using fr read_frame_db_fields [OF fr] by (intro getTrie_congr) (simp_all add: read_frame_def)
qed

lemma readSnapshot_originStorage:
  "readSnapshot key s = (r, s') \<Longrightarrow> originStorage s' = originStorage s"
  by (auto simp: readSnapshot_def setError_def Let_def
        split: option.splits sum.splits if_splits prod.splits outcome.splits)

lemma needLoadFromTrie_congr:
  "snap (db s') = snap (db s) \<Longrightarrow> enableExpire (db s') = enableExpire (db s) \<Longrightarrow>
     needLoadFromTrie s' enc err = needLoadFromTrie s enc err"
  by (simp add: needLoadFromTrie_def)

lemma getTrie_originStorage: "getTrie s = (r, s') \<Longrightarrow> originStorage s' = originStorage s"
  by (auto simp: getTrie_def Let_def split: option.splits sum.splits)

lemma GetCommittedState_value:
  "fst (GetCommittedState ops key s) = committedValue ops key s"
proof -
  obtain r s1 where rs: "readSnapshot key s = (r, s1)" by (cases "readSnapshot key s")
  obtain enc err v where r: "r = (enc, err, v)" by (cases r)
  obtain t s2 where gt: "getTrie s1 = (t, s2)" by (cases "getTrie s1")
  have f1: "read_frame s s1" using rs by (rule read_frame_readSnapshot)
  have f2: "read_frame s1 s2" using gt by (rule read_frame_getTrie)
  have n: "needLoadFromTrie s1 enc err = needLoadFromTrie s enc err"
    using read_frame_db_fields [OF f1] by (intro needLoadFromTrie_congr)
  have t: "fst (getTrie s) = t"
    using readSnapshot_getTrie [OF rs] gt by simp
  have a: "address s2 = address s" using f1 f2 by (simp add: read_frame_def)
  have e: "enableExpire (db s2) = enableExpire (db s)"
    using read_frame_db_fields [OF f1] read_frame_db_fields [OF f2] by simp
  show ?thesis
    unfolding GetCommittedState_def committedValue_def
    by (simp add: rs r gt n t a e Let_def split: option.splits sum.splits prod.splits)
qed

lemma GetState_value: "fst (GetState ops key s) = readValue ops key s"
  using GetCommittedState_value [of ops key s]
  by (auto simp: GetState_def readValue_def Let_def split: option.splits prod.splits)

text \<open>
  \<open>same_view key s s'\<close>: the two states agree on everything a read of \<open>key\<close> looks at.
\<close>

definition same_view :: "hash \<Rightarrow> 't stateObject \<Rightarrow> 't stateObject \<Rightarrow> bool" where
  "same_view key s s' =
     (dirtyStorage s' key = dirtyStorage s key \<and> pendingStorage s' key = pendingStorage s key \<and>
      pendingReviveState s' = pendingReviveState s \<and> originStorage s' key = originStorage s key \<and>
      address s' = address s \<and> addrHash s' = addrHash s \<and>
      snap (db s') = snap (db s) \<and> enableExpire (db s') = enableExpire (db s) \<and>
      hashData (db s') = hashData (db s) \<and> epoch (db s') = epoch (db s) \<and>
      stateObjectsDestruct (db s') = stateObjectsDestruct (db s) \<and>
      fst (getTrie s') = fst (getTrie s))"

lemma same_view_refl: "same_view key s s"
  by (simp add: same_view_def)

lemma same_view_trans: "same_view key s s1 \<Longrightarrow> same_view key s1 s2 \<Longrightarrow> same_view key s s2"
  by (simp add: same_view_def)

lemma readSnapshot_congr:
  assumes "snap (db s') = snap (db s)" "enableExpire (db s') = enableExpire (db s)"
    "hashData (db s') = hashData (db s)" "addrHash s' = addrHash s"
  shows "fst (readSnapshot key s') = fst (readSnapshot key s)"
  using assms
  by (auto simp: readSnapshot_def Let_def
      split: option.splits sum.splits if_splits prod.splits outcome.splits)

lemma same_view_committedValue:
  assumes "same_view key s s'"
  shows "committedValue ops key s' = committedValue ops key s"
proof -
  have rs: "fst (readSnapshot key s') = fst (readSnapshot key s)"
    using assms by (intro readSnapshot_congr) (simp_all add: same_view_def)
  have n: "needLoadFromTrie s' = needLoadFromTrie s"
    using assms by (intro ext needLoadFromTrie_congr) (simp_all add: same_view_def)
  have eqs: "pendingStorage s' key = pendingStorage s key"
    "pendingReviveState s' = pendingReviveState s" "originStorage s' key = originStorage s key"
    "address s' = address s" "enableExpire (db s') = enableExpire (db s)"
    "hashData (db s') = hashData (db s)"
    "stateObjectsDestruct (db s') = stateObjectsDestruct (db s)"
    "fst (getTrie s') = fst (getTrie s)"
    using assms by (simp_all add: same_view_def)
  show ?thesis
    unfolding committedValue_def queryFromReviveState_def eqs rs n ..
qed

lemma same_view_readValue:
  "same_view key s s' \<Longrightarrow> readValue ops key s' = readValue ops key s"
  using same_view_committedValue [of key s s' ops]
  by (simp add: readValue_def same_view_def split: option.splits)

text \<open>
  \<open>read_step key s s'\<close>: what a read of \<open>key\<close> does besides \<open>read_frame\<close>: it caches at
  \<open>key\<close> only, and the trie it has opened is the one a later read would open.
\<close>

definition read_step :: "hash \<Rightarrow> 't stateObject \<Rightarrow> 't stateObject \<Rightarrow> bool" where
  "read_step key s s' =
     ((\<forall>k. k \<noteq> key \<longrightarrow> originStorage s' k = originStorage s k) \<and>
      fst (getTrie s') = fst (getTrie s))"

lemma read_step_refl: "read_step key s s"
  by (simp add: read_step_def)

lemma read_step_trans: "read_step key s s1 \<Longrightarrow> read_step key s1 s2 \<Longrightarrow> read_step key s s2"
  by (simp add: read_step_def)

lemma read_step_setError: "read_step key s (setError e s)"
proof -
  have "fst (getTrie (setError e s)) = fst (getTrie s)"
    by (rule getTrie_congr) (simp_all add: setError_def)
  then show ?thesis by (simp add: read_step_def setError_def)
qed

lemma read_step_originStorage: "read_step key s (s\<lparr>originStorage := (originStorage s)(key \<mapsto> v)\<rparr>)"
proof -
  have "fst (getTrie (s\<lparr>originStorage := (originStorage s)(key \<mapsto> v)\<rparr>)) = fst (getTrie s)"
    by (rule getTrie_congr) simp_all
  then show ?thesis by (simp add: read_step_def)
qed

lemma read_step_getTrie: "getTrie s = (r, s') \<Longrightarrow> read_step key s s'"
  using getTrie_again [of s r s'] getTrie_originStorage [of s r s']
  by (simp add: read_step_def)

lemma read_step_readSnapshot: "readSnapshot key' s = (r, s') \<Longrightarrow> read_step key s s'"
  using readSnapshot_getTrie [of key' s r s'] readSnapshot_originStorage [of key' s r s']
  by (simp add: read_step_def)

lemma read_step_accessState: "read_step key s (accessState key' s)"
proof -
  have "fst (getTrie (accessState key' s)) = fst (getTrie s)"
    by (rule getTrie_congr) (simp_all add: accessState_def Let_def)
  then show ?thesis by (simp add: read_step_def accessState_def Let_def)
qed

lemma read_step_GetCommittedState:
  assumes "GetCommittedState ops key s = (v, s')"
  shows "read_step key s s'"
  using assms
  unfolding GetCommittedState_def
  by (auto simp: Let_def split: option.splits if_splits prod.splits sum.splits
      intro: read_step_refl
      dest!: read_step_getTrie [where key = key] read_step_readSnapshot [where key = key]
      intro!: read_step_trans[OF _ read_step_originStorage] read_step_trans[OF _ read_step_setError]
      elim: read_step_trans)

lemma read_step_GetState:
  "GetState ops key s = (v, s') \<Longrightarrow> read_step key s s'"
  unfolding GetState_def
  by (auto simp: Let_def split: option.splits prod.splits if_splits
      dest!: read_step_GetCommittedState
      intro: read_step_refl read_step_trans[OF _ read_step_accessState])

lemma same_view_read:
  assumes "read_frame s s'" "read_step key' s s'" "key' \<noteq> key"
  shows "same_view key s s'"
  using assms read_frame_db_fields [OF assms(1)]
  by (simp add: same_view_def read_frame_def read_step_def)

lemma same_view_GetState_other:
  "GetState ops key' s = (v, s') \<Longrightarrow> key' \<noteq> key \<Longrightarrow> same_view key s s'"
  by (rule same_view_read) (auto intro: read_frame_GetState read_step_GetState)

section \<open>What the commit pipeline leaves alone\<close>

lemma forEach_invariant:
  assumes ok: "\<And>k st st'. f k st = Inr st' \<Longrightarrow> Q st \<Longrightarrow> Q st'"
    and bad: "\<And>k st e. f k st = Inl e \<Longrightarrow> Q st \<Longrightarrow> E e"
    and start: "Q st"
  shows "case forEach f ks st of Inl e \<Rightarrow> E e | Inr st' \<Rightarrow> Q st'"
  using start
proof (induction ks arbitrary: st)
  case Nil
  then show ?case by simp
next
  case (Cons k ks)
  show ?case
  proof (cases "f k st")
    case (Inl e)
    then show ?thesis using bad [OF Inl Cons.prems] by simp
  next
    case (Inr st')
    then show ?thesis using Cons.IH [OF ok [OF Inr Cons.prems]] by simp
  qed
qed

text \<open>The account record and its committed copy.\<close>

definition same_account :: "'t stateObject \<Rightarrow> 't stateObject \<Rightarrow> bool" where
  "same_account s s' = (data s' = data s \<and> origin s' = origin s)"

lemma same_account_refl: "same_account s s"
  by (simp add: same_account_def)

lemma same_account_trans: "same_account s s1 \<Longrightarrow> same_account s1 s2 \<Longrightarrow> same_account s s2"
  by (simp add: same_account_def)

lemma read_frame_same_account: "read_frame s s' \<Longrightarrow> same_account s s'"
  by (simp add: read_frame_def same_account_def)

lemma same_account_finaliseLoop:
  "finaliseLoop ks (s, slots) = (s', slots') \<Longrightarrow> same_account s s'"
proof (induction ks arbitrary: s slots)
  case Nil
  then show ?case by (simp add: same_account_def)
next
  case (Cons k ks)
  show ?case
  proof (cases "dirtyStorage s k")
    case None
    then show ?thesis using Cons by simp
  next
    case (Some v)
    then have "same_account (s\<lparr>pendingStorage := (pendingStorage s)(k \<mapsto> v)\<rparr>) s'"
      using Cons.prems by (auto intro: Cons.IH)
    then show ?thesis by (simp add: same_account_def)
  qed
qed

lemma same_account_finalise: "same_account s (finalise prefetch ks s)"
proof -
  obtain s1 slots where l: "finaliseLoop ks (s, []) = (s1, slots)"
    by (cases "finaliseLoop ks (s, [])")
  have "same_account s s1" using l by (rule same_account_finaliseLoop)
  then show ?thesis
    by (auto simp: finalise_def l Let_def same_account_def split: option.splits)
qed

lemma same_account_getTrie: "getTrie s = (r, s') \<Longrightarrow> same_account s s'"
  by (rule read_frame_same_account) (rule read_frame_getTrie)

lemma same_account_getPendingReviveTrie:
  "getPendingReviveTrie s = (r, s') \<Longrightarrow> same_account s s'"
  by (auto simp: getPendingReviveTrie_def Let_def same_account_def
      split: option.splits prod.splits sum.splits dest!: same_account_getTrie)

lemma same_account_setError: "same_account s (setError e s)"
  by (simp add: same_account_def setError_def)

lemma same_account_setWorkingTrie: "same_account s (setWorkingTrie tr s)"
  by (simp add: same_account_def setWorkingTrie_def)

lemma same_account_cacheMutated: "same_account s (cacheMutated k b s)"
  by (simp add: same_account_def cacheMutated_def Let_def)

lemma same_account_cacheOrigin: "same_account s (cacheOrigin k p s)"
  by (simp add: same_account_def cacheOrigin_def Let_def)

lemma data_simps [simp]:
  "data (setError e s) = data s" "origin (setError e s) = origin s"
  "data (setWorkingTrie tr s) = data s" "origin (setWorkingTrie tr s) = origin s"
  "data (cacheMutated k b s) = data s" "origin (cacheMutated k b s) = origin s"
  "data (cacheOrigin k p s) = data s" "origin (cacheOrigin k p s) = origin s"
  using same_account_setError [of s e] same_account_setWorkingTrie [of s tr]
    same_account_cacheMutated [of s k b] same_account_cacheOrigin [of s k p]
  by (simp_all add: same_account_def)

lemma same_account_pendingStep:
  "(pendingStep ops key (s, tr, acc, used) = Inr (s', tr', acc', used') \<longrightarrow> same_account s s') \<and>
   (pendingStep ops key (s, tr, acc, used) = Inl (e, s'') \<longrightarrow> same_account s s'')"
  by (auto simp: pendingStep_def Let_def same_account_def
      split: option.splits prod.splits if_splits)

lemma same_account_accessStep:
  "(accessStep ops key (s, tr, acc, used) = Inr (s', tr', acc', used') \<longrightarrow> same_account s s') \<and>
   (accessStep ops key (s, tr, acc, used) = Inl (e, s'') \<longrightarrow> same_account s s'')"
proof -
  obtain v s1 where g: "GetState ops key s = (v, s1)" by (cases "GetState ops key s")
  have "same_account s s1"
    using g by (intro read_frame_same_account read_frame_GetState)
  then show ?thesis
    by (auto simp: accessStep_def g Let_def same_account_def split: option.splits prod.splits)
qed

lemma same_account_forEach_pending:
  "case forEach (pendingStep ops) ks (s, tr, acc, used) of
     Inl (e, s') \<Rightarrow> same_account s s'
   | Inr (s', rest) \<Rightarrow> same_account s s'"
proof -
  have "case forEach (pendingStep ops) ks (s, tr, acc, used) of
          Inl e \<Rightarrow> same_account s (snd e)
        | Inr st' \<Rightarrow> same_account s (fst st')"
  proof (rule forEach_invariant [where Q = "\<lambda>st. same_account s (fst st)"])
    show "same_account s (fst (s, tr, acc, used))" by (simp add: same_account_refl)
  next
    fix k st st'
    assume "pendingStep ops k st = Inr st'" "same_account s (fst st)"
    then show "same_account s (fst st')"
      using same_account_pendingStep [where ops = ops and key = k and s = "fst st" and tr = "fst (snd st)"
          and acc = "fst (snd (snd st))" and used = "snd (snd (snd st))" and s' = "fst st'"
          and tr' = "fst (snd st')" and acc' = "fst (snd (snd st'))" and used' = "snd (snd (snd st'))"]
      by (auto elim: same_account_trans)
  next
    fix k st e
    assume "pendingStep ops k st = Inl e" "same_account s (fst st)"
    then show "same_account s (snd e)"
      using same_account_pendingStep [where ops = ops and key = k and s = "fst st" and tr = "fst (snd st)"
          and acc = "fst (snd (snd st))" and used = "snd (snd (snd st))" and e = "fst e" and s'' = "snd e"]
      by (auto elim: same_account_trans)
  qed
  then show ?thesis by (auto split: sum.splits)
qed

lemma same_account_forEach_access:
  "case forEach (accessStep ops) ks (s, tr, acc, used) of
     Inl (e, s') \<Rightarrow> same_account s s'
   | Inr (s', rest) \<Rightarrow> same_account s s'"
proof -
  have "case forEach (accessStep ops) ks (s, tr, acc, used) of
          Inl e \<Rightarrow> same_account s (snd e)
        | Inr st' \<Rightarrow> same_account s (fst st')"
  proof (rule forEach_invariant [where Q = "\<lambda>st. same_account s (fst st)"])
    show "same_account s (fst (s, tr, acc, used))" by (simp add: same_account_refl)
  next
    fix k st st'
    assume "accessStep ops k st = Inr st'" "same_account s (fst st)"
    then show "same_account s (fst st')"
      using same_account_accessStep [where ops = ops and key = k and s = "fst st" and tr = "fst (snd st)"
          and acc = "fst (snd (snd st))" and used = "snd (snd (snd st))" and s' = "fst st'"
          and tr' = "fst (snd st')" and acc' = "fst (snd (snd st'))" and used' = "snd (snd (snd st'))"]
      by (auto elim: same_account_trans)
  next
    fix k st e
    assume "accessStep ops k st = Inl e" "same_account s (fst st)"
    then show "same_account s (snd e)"
      using same_account_accessStep [where ops = ops and key = k and s = "fst st" and tr = "fst (snd st)"
          and acc = "fst (snd (snd st))" and used = "snd (snd (snd st))" and e = "fst e" and s'' = "snd e"]
      by (auto elim: same_account_trans)
  qed
  then show ?thesis by (auto split: sum.splits)
qed

lemma same_account_updateTrieEnd:
  "updateTrieEnd (s, tr, acc, used) = (h, s') \<Longrightarrow> same_account s s'"
  by (auto simp: updateTrieEnd_def Let_def same_account_def split: option.splits if_splits)

lemma same_account_updateTrie:
  assumes "updateTrie ops dks pks aks s = (r, s')"
  shows "same_account s s'"
proof -
  let ?f = "finalise False dks s"
  have f: "same_account s ?f" by (rule same_account_finalise)
  show ?thesis
  proof (cases "needUpdateTrie ?f")
    case False
    then show ?thesis using assms f by (simp add: updateTrie_def Let_def)
  next
    case True
    obtain r1 s1 where o: "(if enableExpire (db ?f) then getPendingReviveTrie ?f else getTrie ?f) = (r1, s1)"
      by (cases "if enableExpire (db ?f) then getPendingReviveTrie ?f else getTrie ?f")
    have s1: "same_account s s1"
      using o f by (auto split: if_splits
          dest!: same_account_getPendingReviveTrie same_account_getTrie elim: same_account_trans)
    show ?thesis
    proof (cases r1)
      case (Inl err)
      then show ?thesis
        using assms True o s1 by (auto simp: updateTrie_def Let_def same_account_def)
    next
      case (Inr tr)
      define acc where "acc = (if enableExpire (db s1)
                        then (\<lambda>k. map_option (\<lambda>c. ()) (pendingAccessedState s1 k))
                        else Map.empty)"
      note p = same_account_forEach_pending [where ops = ops and ks = pks and s = s1 and tr = tr and acc = acc and used = "[]"]
      show ?thesis
      proof (cases "forEach (pendingStep ops) pks (s1, tr, acc, [])")
        case (Inl e)
        then show ?thesis
          using assms True o Inr p s1
          by (auto simp: updateTrie_def Let_def acc_def split: prod.splits elim: same_account_trans)
      next
        case st2: (Inr st2)
        obtain s2 tr2 acc2 used2 where st2e: "st2 = (s2, tr2, acc2, used2)" by (cases st2) auto
        have s2: "same_account s s2" using p st2 st2e s1 by (auto elim: same_account_trans)
        note a = same_account_forEach_access [where ops = ops and ks = aks and s = s2 and tr = tr2 and acc = acc2 and used = used2]
        show ?thesis
        proof (cases "if enableExpire (db s2) then forEach (accessStep ops) aks st2 else Inr st2")
          case (Inl e)
          then show ?thesis
            using assms True o Inr st2 st2e a s2
            by (auto simp: updateTrie_def Let_def acc_def split: prod.splits if_splits elim: same_account_trans)
        next
          case st3: (Inr st3)
          obtain s3 tr3 acc3 used3 where st3e: "st3 = (s3, tr3, acc3, used3)" by (cases st3) auto
          have s3: "same_account s s3"
            using st3 st3e a s2 st2e by (auto split: if_splits elim: same_account_trans)
          obtain h s4 where e: "updateTrieEnd st3 = (h, s4)" by (cases "updateTrieEnd st3")
          have "same_account s3 s4" using e st3e by (auto dest: same_account_updateTrieEnd)
          then show ?thesis
            using assms True o Inr st2 st2e st3 e s3
            by (auto simp: updateTrie_def Let_def acc_def elim: same_account_trans)
        qed
      qed
    qed
  qed
qed

section \<open>The refresh of accessed slots\<close>

text \<open>A pending entry that differs from the cached original is written to the trie.\<close>

definition rewritten :: "'t stateObject \<Rightarrow> hash \<Rightarrow> bool" where
  "rewritten s key =
     (case pendingStorage s key of
        None \<Rightarrow> False
      | Some v \<Rightarrow> v \<noteq> lookup0 (originStorage s) key)"

lemma same_view_rewritten: "same_view key s s' \<Longrightarrow> rewritten s' key = rewritten s key"
  by (simp add: same_view_def rewritten_def lookup0_def split: option.splits)

lemma same_view_update_db:
  assumes "snap d = snap (db s)" "enableExpire d = enableExpire (db s)"
    "hashData d = hashData (db s)" "epoch d = epoch (db s)"
    "stateObjectsDestruct d = stateObjectsDestruct (db s)"
    "prefetcher d = prefetcher (db s)" "OpenStorageTrie d = OpenStorageTrie (db s)"
    "originalRoot d = originalRoot (db s)"
  shows "same_view key s (s\<lparr>db := d\<rparr>)"
proof -
  have "fst (getTrie (s\<lparr>db := d\<rparr>)) = fst (getTrie s)"
    using assms by (intro getTrie_congr) simp_all
  then show ?thesis using assms by (simp add: same_view_def)
qed

lemma same_view_setError: "same_view key s (setError e s)"
  unfolding setError_def by (auto intro: same_view_refl same_view_update_db)

lemma same_view_cacheMutated: "same_view key s (cacheMutated kh b s)"
  unfolding cacheMutated_def Let_def by (rule same_view_update_db) simp_all

lemma same_view_cacheOrigin: "same_view key s (cacheOrigin kh p s)"
  unfolding cacheOrigin_def Let_def by (rule same_view_update_db) simp_all

lemma same_view_reviveTrie: "same_view key s (s\<lparr>pendingReviveTrie := t\<rparr>)"
proof -
  have "fst (getTrie (s\<lparr>pendingReviveTrie := t\<rparr>)) = fst (getTrie s)"
    by (intro getTrie_congr) simp_all
  then show ?thesis by (simp add: same_view_def)
qed

lemma same_view_setWorkingTrie:
  "enableExpire (db s) \<Longrightarrow> same_view key s (setWorkingTrie tr s)"
  by (simp add: setWorkingTrie_def same_view_reviveTrie)

lemma same_view_originStorage_other:
  "k \<noteq> key \<Longrightarrow> same_view key s (s\<lparr>originStorage := (originStorage s)(k \<mapsto> v)\<rparr>)"
proof -
  have "fst (getTrie (s\<lparr>originStorage := (originStorage s)(k \<mapsto> v)\<rparr>)) = fst (getTrie s)"
    by (intro getTrie_congr) simp_all
  then show "k \<noteq> key \<Longrightarrow> ?thesis" by (simp add: same_view_def)
qed

lemma same_view_counters:
  "same_view key s (s\<lparr>db := (db s)\<lparr>StorageDeleted := n\<rparr>\<rparr>)"
  "same_view key s (s\<lparr>db := (db s)\<lparr>StorageUpdated := n\<rparr>\<rparr>)"
  by (rule same_view_update_db; simp)+

lemma same_view_expire: "same_view key s s' \<Longrightarrow> enableExpire (db s') = enableExpire (db s)"
  by (simp add: same_view_def)

lemma same_view_getTrie: "getTrie s = (r, s') \<Longrightarrow> same_view key s s'"
proof -
  assume g: "getTrie s = (r, s')"
  have fr: "read_frame s s'" using g by (rule read_frame_getTrie)
  show ?thesis
    using fr read_frame_db_fields [OF fr] getTrie_again [OF g] getTrie_originStorage [OF g] g
    by (simp add: same_view_def read_frame_def)
qed

lemma same_view_getPendingReviveTrie:
  "getPendingReviveTrie s = (r, s') \<Longrightarrow> same_view key s s'"
  by (auto simp: getPendingReviveTrie_def Let_def split: option.splits prod.splits sum.splits
      intro: same_view_refl dest!: same_view_getTrie [where key = key]
      elim: same_view_trans [OF _ same_view_reviveTrie])

text \<open>The loop over \<open>pendingStorage\<close>, seen from a key it does not rewrite.\<close>

lemma pendingStep_view:
  assumes "pendingStep ops k (s, tr, acc, used) = Inr (s', tr', acc', used')"
    and "enableExpire (db s)" and "\<not> rewritten s key"
  shows "same_view key s s' \<and> acc' key = acc key"
proof (cases "pendingStorage s k")
  case None
  then show ?thesis using assms by (simp add: pendingStep_def same_view_refl)
next
  case (Some v)
  show ?thesis
  proof (cases "v = lookup0 (originStorage s) k")
    case True
    then show ?thesis using assms Some by (simp add: pendingStep_def same_view_refl)
  next
    case False
    then have ne: "k \<noteq> key" using assms(3) Some by (auto simp: rewritten_def)
    let ?s1 = "s\<lparr>originStorage := (originStorage s)(k \<mapsto> v)\<rparr>"
    have v1: "same_view key s ?s1" using ne by (rule same_view_originStorage_other)
    have e1: "enableExpire (db ?s1)" using assms(2) by simp
    obtain err tr1 where op:
      "(if v = 0 then DeleteStorage ops tr (address ?s1) (hash_bytes k)
        else UpdateStorage ops tr (address ?s1) (hash_bytes k) (TrimLeftZeroes (hash_bytes v)))
       = (err, tr1)"
      by (cases "if v = 0 then DeleteStorage ops tr (address ?s1) (hash_bytes k)
        else UpdateStorage ops tr (address ?s1) (hash_bytes k) (TrimLeftZeroes (hash_bytes v))")
    let ?s2 = "setWorkingTrie tr1 ?s1"
    have v2: "same_view key ?s1 ?s2" using e1 by (rule same_view_setWorkingTrie)
    let ?s3 = "if v = 0
               then ?s2\<lparr>db := (db ?s2)\<lparr>StorageDeleted := StorageDeleted (db ?s2) + 1\<rparr>\<rparr>
               else ?s2\<lparr>db := (db ?s2)\<lparr>StorageUpdated := StorageUpdated (db ?s2) + 1\<rparr>\<rparr>"
    have v3: "same_view key ?s2 ?s3" by (simp add: same_view_counters)
    let ?b = "if v = 0 then []
              else if enableExpire (db ?s1)
                   then encodeWithEpoch (epoch (db ?s1)) (TrimLeftZeroes (hash_bytes v))
                   else writeBytes (TrimLeftZeroes (hash_bytes v))"
    let ?kh = "hashData (db ?s3) (hash_bytes k)"
    have res: "err = None \<and> acc' = acc(k := None) \<and>
      s' = cacheOrigin ?kh (lookup0 (originStorage s) k) (cacheMutated ?kh ?b ?s3)"
      using assms(1) Some False op e1
      by (auto simp: pendingStep_def Let_def split: option.splits if_splits)
    then have s': "s' = cacheOrigin ?kh (lookup0 (originStorage s) k) (cacheMutated ?kh ?b ?s3)"
      by blast
    have "same_view key ?s3 s'"
      by (subst s') (rule same_view_trans [OF same_view_cacheMutated same_view_cacheOrigin])
    then have "same_view key s s'"
      using v1 v2 v3 by (blast intro: same_view_trans)
    then show ?thesis using res ne by simp
  qed
qed

lemma pendingLoop_view:
  assumes "forEach (pendingStep ops) ks (s, tr, acc, used) = Inr (s', tr', acc', used')"
    and "enableExpire (db s)" and "\<not> rewritten s key"
  shows "same_view key s s' \<and> acc' key = acc key"
  using assms
proof (induction ks arbitrary: s tr acc used)
  case Nil
  then show ?case by (simp add: same_view_refl)
next
  case (Cons k ks)
  from Cons.prems(1) obtain s1 tr1 acc1 used1
    where st: "pendingStep ops k (s, tr, acc, used) = Inr (s1, tr1, acc1, used1)"
      and lp: "forEach (pendingStep ops) ks (s1, tr1, acc1, used1) = Inr (s', tr', acc', used')"
    by (auto split: sum.splits)
  have v1: "same_view key s s1" "acc1 key = acc key"
    using pendingStep_view [OF st Cons.prems(2,3)] by simp_all
  have "enableExpire (db s1)" "\<not> rewritten s1 key"
    using v1(1) Cons.prems(2,3) by (simp_all add: same_view_expire same_view_rewritten)
  then have "same_view key s1 s' \<and> acc' key = acc1 key"
    using Cons.IH [OF lp] by simp
  then show ?case using v1 by (auto elim: same_view_trans)
qed

text \<open>The entry of this account's inner map of \<open>s.db.storages\<close> at a hashed key.\<close>

definition mutatedSlot :: "'t stateObject \<Rightarrow> hash \<Rightarrow> byte list option" where
  "mutatedSlot s kh = (case storages (db s) (addrHash s) of None \<Rightarrow> None | Some m \<Rightarrow> m kh)"

text \<open>
  What a claim about the contents of the trie has to assume of the collaborator: a
  successful \<open>UpdateStorage\<close> is read back by \<open>GetStorage\<close>, and leaves the other keys.
\<close>

definition trie_laws :: "('t, 'n) TrieOps \<Rightarrow> bool" where
  "trie_laws ops =
     (\<forall>t a k v t'. UpdateStorage ops t a k v = (None, t') \<longrightarrow>
        GetStorage ops t' a k = (v, None) \<and>
        (\<forall>k'. k' \<noteq> k \<longrightarrow> GetStorage ops t' a k' = GetStorage ops t a k'))"

lemma hash_bytes_inj: "hash_bytes a = hash_bytes b \<Longrightarrow> a = b"
  by (metis hash_of_bytes_hash_bytes)

lemma mutatedSlot_cacheMutated:
  "mutatedSlot (cacheMutated kh b s) kh' = (if kh' = kh then Some b else mutatedSlot s kh')"
  by (simp add: mutatedSlot_def cacheMutated_def Let_def split: option.splits)

lemma mutatedSlot_congr:
  "storages (db s') = storages (db s) \<Longrightarrow> addrHash s' = addrHash s \<Longrightarrow>
     mutatedSlot s' kh = mutatedSlot s kh"
  by (simp add: mutatedSlot_def)

lemma accessStep_skip: "acc k = None \<Longrightarrow> accessStep ops k (s, tr, acc, used) = Inr (s, tr, acc, used)"
  by (simp add: accessStep_def)

text \<open>One round of the loop over \<open>accessStorage\<close>, for a key the map holds.\<close>

lemma accessStep_effect:
  assumes step: "accessStep ops k (s, tr, acc, used) = Inr (s', tr', acc', used')"
    and held: "acc k \<noteq> None" and expire: "enableExpire (db s)"
  shows "UpdateStorage ops tr (address s) (hash_bytes k)
           (TrimLeftZeroes (hash_bytes (readValue ops k s))) = (None, tr')"
    and "acc' = acc"
    and "mutatedSlot s' kh =
           (if kh = hashData (db s) (hash_bytes k)
            then Some (encodeWithEpoch (epoch (db s)) (TrimLeftZeroes (hash_bytes (readValue ops k s))))
            else mutatedSlot s kh)"
    and "key \<noteq> k \<Longrightarrow> same_view key s s'"
    and "enableExpire (db s')" and "address s' = address s" and "addrHash s' = addrHash s"
    and "hashData (db s') = hashData (db s)" and "epoch (db s') = epoch (db s)"
proof -
  obtain v s1 where g: "GetState ops k s = (v, s1)" by (cases "GetState ops k s")
  have v: "v = readValue ops k s" using GetState_value [of ops k s] g by simp
  have fr: "read_frame s s1" using g by (rule read_frame_GetState)
  note dbf = read_frame_db_fields [OF fr]
  have a1: "address s1 = address s" "addrHash s1 = addrHash s"
    using fr by (simp_all add: read_frame_def)
  have e1: "enableExpire (db s1)" using dbf expire by simp
  let ?tv = "TrimLeftZeroes (hash_bytes v)"
  obtain err tr1 where op: "UpdateStorage ops tr (address s1) (hash_bytes k) ?tv = (err, tr1)"
    by (cases "UpdateStorage ops tr (address s1) (hash_bytes k) ?tv")
  let ?s2 = "setWorkingTrie tr1 s1"
  let ?s3 = "?s2\<lparr>db := (db ?s2)\<lparr>StorageUpdated := StorageUpdated (db ?s2) + 1\<rparr>\<rparr>"
  let ?kh = "hashData (db ?s3) (hash_bytes k)"
  have res: "err = None \<and> tr' = tr1 \<and> acc' = acc \<and>
      s' = cacheMutated ?kh (encodeWithEpoch (epoch (db s1)) ?tv) ?s3"
    using step held g op
    by (auto simp: accessStep_def Let_def split: option.splits)
  have s2: "?s2 = s1\<lparr>pendingReviveTrie := Some tr1\<rparr>"
    using e1 by (simp add: setWorkingTrie_def)
  have kh: "?kh = hashData (db s) (hash_bytes k)"
    using dbf by (simp add: s2)
  have s': "s' = cacheMutated (hashData (db s) (hash_bytes k))
                   (encodeWithEpoch (epoch (db s)) ?tv) ?s3"
    using res kh dbf by simp
  show "UpdateStorage ops tr (address s) (hash_bytes k)
           (TrimLeftZeroes (hash_bytes (readValue ops k s))) = (None, tr')"
    using op res a1 v by simp
  show "acc' = acc" using res by simp
  have "mutatedSlot ?s3 kh = mutatedSlot s kh"
    using dbf a1 by (intro mutatedSlot_congr) (simp_all add: s2)
  then show "mutatedSlot s' kh =
           (if kh = hashData (db s) (hash_bytes k)
            then Some (encodeWithEpoch (epoch (db s)) (TrimLeftZeroes (hash_bytes (readValue ops k s))))
            else mutatedSlot s kh)"
    by (simp add: s' mutatedSlot_cacheMutated v)
  have v3: "same_view key s1 ?s3"
    using e1 by (blast intro: same_view_trans same_view_setWorkingTrie same_view_counters)
  have v4: "same_view key s1 s'"
    by (subst s') (rule same_view_trans [OF v3 same_view_cacheMutated])
  show "same_view key s s'" if "key \<noteq> k"
  proof -
    have "k \<noteq> key" using that by simp
    then have "same_view key s s1" by (rule same_view_GetState_other [OF g])
    then show ?thesis using v4 by (rule same_view_trans)
  qed
  have "same_view k s1 s'" 
    by (subst s') (rule same_view_trans [OF _ same_view_cacheMutated],
        blast intro: same_view_trans same_view_setWorkingTrie same_view_counters e1)
  then show "enableExpire (db s')" "address s' = address s" "addrHash s' = addrHash s"
    "hashData (db s') = hashData (db s)" "epoch (db s') = epoch (db s)"
    using e1 a1 dbf by (simp_all add: same_view_def)
qed

lemma forEach_Cons_Inr:
  "forEach f (k # ks) st = Inr st' \<Longrightarrow> \<exists>st1. f k st = Inr st1 \<and> forEach f ks st1 = Inr st'"
  by (auto split: sum.splits)

text \<open>The rounds for other keys leave the entry and the trie's value of \<open>key\<close> alone.\<close>

lemma accessLoop_keep:
  assumes "forEach (accessStep ops) ks (s, tr, acc, used) = Inr (s', tr', acc', used')"
    and "enableExpire (db s)" and "key \<notin> set ks"
    and "\<forall>k\<in>set ks. hashData (db s) (hash_bytes k) \<noteq> kh"
  shows "mutatedSlot s' kh = mutatedSlot s kh \<and>
         (trie_laws ops \<longrightarrow> GetStorage ops tr' (address s) (hash_bytes key)
                              = GetStorage ops tr (address s) (hash_bytes key))"
  using assms
proof (induction ks arbitrary: s tr acc used)
  case Nil
  then show ?case by simp
next
  case (Cons k ks)
  obtain st1 where st: "accessStep ops k (s, tr, acc, used) = Inr st1"
    and lp: "forEach (accessStep ops) ks st1 = Inr (s', tr', acc', used')"
    using forEach_Cons_Inr [OF Cons.prems(1)] by blast
  obtain s1 tr1 acc1 used1 where st1: "st1 = (s1, tr1, acc1, used1)" by (cases st1) auto
  have ne: "key \<noteq> k" and nk: "hashData (db s) (hash_bytes k) \<noteq> kh"
    using Cons.prems(3,4) by auto
  show ?case
  proof (cases "acc k")
    case None
    then have "st1 = (s, tr, acc, used)" using st by (simp add: accessStep_skip)
    then show ?thesis
      using Cons.IH [of s tr acc used] lp Cons.prems(2,3,4) by simp
  next
    case (Some u)
    then have held: "acc k \<noteq> None" by simp
    note eff = accessStep_effect [OF st [unfolded st1] held Cons.prems(2)]
    have slot: "mutatedSlot s1 kh = mutatedSlot s kh"
      using eff(3) [of kh] nk by auto
    have tri: "trie_laws ops \<longrightarrow> GetStorage ops tr1 (address s) (hash_bytes key)
                 = GetStorage ops tr (address s) (hash_bytes key)"
    proof
      assume "trie_laws ops"
      moreover have "hash_bytes key \<noteq> hash_bytes k" using ne hash_bytes_inj by blast
      ultimately show "GetStorage ops tr1 (address s) (hash_bytes key)
                 = GetStorage ops tr (address s) (hash_bytes key)"
        using eff(1) unfolding trie_laws_def by blast
    qed
    have "mutatedSlot s' kh = mutatedSlot s1 kh \<and>
         (trie_laws ops \<longrightarrow> GetStorage ops tr' (address s1) (hash_bytes key)
                              = GetStorage ops tr1 (address s1) (hash_bytes key))"
      using Cons.IH [of s1 tr1 acc1 used1] lp st1 eff(5,8) Cons.prems(3,4) by simp
    then show ?thesis using slot tri eff(6) by simp
  qed
qed

text \<open>The round for \<open>key\<close> writes its value, read as it was when the loop began.\<close>

lemma accessLoop_result:
  assumes "forEach (accessStep ops) ks (s, tr, acc, used) = Inr (s', tr', acc', used')"
    and "enableExpire (db s)" and "distinct ks" and "key \<in> set ks" and "acc key \<noteq> None"
    and "\<forall>k\<in>set ks. hashData (db s) (hash_bytes k) = hashData (db s) (hash_bytes key) \<longrightarrow> k = key"
  shows "mutatedSlot s' (hashData (db s) (hash_bytes key))
           = Some (encodeWithEpoch (epoch (db s)) (TrimLeftZeroes (hash_bytes (readValue ops key s)))) \<and>
         (trie_laws ops \<longrightarrow> GetStorage ops tr' (address s) (hash_bytes key)
                              = (TrimLeftZeroes (hash_bytes (readValue ops key s)), None))"
  using assms
proof (induction ks arbitrary: s tr acc used)
  case Nil
  then show ?case by simp
next
  case (Cons k ks)
  obtain st1 where st: "accessStep ops k (s, tr, acc, used) = Inr st1"
    and lp: "forEach (accessStep ops) ks st1 = Inr (s', tr', acc', used')"
    using forEach_Cons_Inr [OF Cons.prems(1)] by blast
  obtain s1 tr1 acc1 used1 where st1: "st1 = (s1, tr1, acc1, used1)" by (cases st1) auto
  let ?kh = "hashData (db s) (hash_bytes key)"
  let ?tv = "TrimLeftZeroes (hash_bytes (readValue ops key s))"
  show ?case
  proof (cases "k = key")
    case True
    note eff = accessStep_effect [OF st [unfolded st1 True] Cons.prems(5) Cons.prems(2)]
    have notin: "key \<notin> set ks" using Cons.prems(3) True by simp
    have others: "\<forall>k'\<in>set ks. hashData (db s1) (hash_bytes k') \<noteq> ?kh"
      using Cons.prems(6) notin eff(8) by auto
    have keep: "mutatedSlot s' ?kh = mutatedSlot s1 ?kh \<and>
         (trie_laws ops \<longrightarrow> GetStorage ops tr' (address s1) (hash_bytes key)
                              = GetStorage ops tr1 (address s1) (hash_bytes key))"
      using accessLoop_keep [OF lp [unfolded st1] eff(5) notin others] .
    have slot: "mutatedSlot s1 ?kh = Some (encodeWithEpoch (epoch (db s)) ?tv)"
      using eff(3) [of ?kh] by simp
    have tri: "trie_laws ops \<longrightarrow> GetStorage ops tr1 (address s) (hash_bytes key) = (?tv, None)"
      using eff(1) unfolding trie_laws_def by blast
    show ?thesis using keep slot tri eff(6) by simp
  next
    case False
    then have inks: "key \<in> set ks" using Cons.prems(4) by simp
    have dist: "distinct ks" using Cons.prems(3) by simp
    show ?thesis
    proof (cases "acc k")
      case None
      then have "st1 = (s, tr, acc, used)" using st by (simp add: accessStep_skip)
      then show ?thesis
        using Cons.IH [of s tr acc used] lp Cons.prems(2,5,6) dist inks by simp
    next
      case (Some u)
      then have held: "acc k \<noteq> None" by simp
      note eff = accessStep_effect [OF st [unfolded st1] held Cons.prems(2)]
      have ne: "key \<noteq> k" using False by simp
      have view: "same_view key s s1" using eff(4) [OF ne] .
      have rv: "readValue ops key s1 = readValue ops key s"
        using view by (rule same_view_readValue)
      have "mutatedSlot s' (hashData (db s1) (hash_bytes key))
           = Some (encodeWithEpoch (epoch (db s1)) (TrimLeftZeroes (hash_bytes (readValue ops key s1)))) \<and>
         (trie_laws ops \<longrightarrow> GetStorage ops tr' (address s1) (hash_bytes key)
                              = (TrimLeftZeroes (hash_bytes (readValue ops key s1)), None))"
        using Cons.IH [of s1 tr1 acc1 used1] lp st1 eff(2,5,8) Cons.prems(5,6) dist inks by simp
      then show ?thesis using rv eff(6,8,9) by simp
    qed
  qed
qed

lemma finaliseLoop_frame:
  "finaliseLoop ks (s, slots) = (s', slots') \<Longrightarrow> s' = s\<lparr>pendingStorage := pendingStorage s'\<rparr>"
proof (induction ks arbitrary: s slots)
  case Nil
  then show ?case by simp
next
  case (Cons k ks)
  show ?case
  proof (cases "dirtyStorage s k")
    case None
    then show ?thesis using Cons by simp
  next
    case (Some v)
    let ?s = "s\<lparr>pendingStorage := (pendingStorage s)(k \<mapsto> v)\<rparr>"
    have "finaliseLoop ks (?s, if v \<noteq> lookup0 (originStorage s) k
                                then slots @ [hash_bytes k] else slots) = (s', slots')"
      using Cons.prems Some by simp
    then have "s' = ?s\<lparr>pendingStorage := pendingStorage s'\<rparr>"
      by (rule Cons.IH)
    then show ?thesis by simp
  qed
qed

lemma finalise_no_prefetch:
  "\<exists>p. finalise False ks s = s\<lparr>pendingStorage := p, dirtyStorage := Map.empty\<rparr>"
proof -
  obtain s1 slots where l: "finaliseLoop ks (s, []) = (s1, slots)"
    by (cases "finaliseLoop ks (s, [])")
  have s1: "s1 = s\<lparr>pendingStorage := pendingStorage s1\<rparr>" using l by (rule finaliseLoop_frame)
  have "finalise False ks s = (if dirtyStorage s1 \<noteq> Map.empty then s1\<lparr>dirtyStorage := Map.empty\<rparr> else s1)"
    by (simp add: finalise_def l split: option.splits)
  also have "\<dots> = s1\<lparr>dirtyStorage := Map.empty\<rparr>" by simp
  also have "\<dots> = s\<lparr>pendingStorage := pendingStorage s1, dirtyStorage := Map.empty\<rparr>"
    by (subst s1) simp
  finally show ?thesis by blast
qed

lemma updateTrieEnd_expire:
  assumes "updateTrieEnd (s, tr, acc, used) = (h, s')" and "enableExpire (db s)"
  shows "h = DetachedTrie tr" and "mutatedSlot s' kh = mutatedSlot s kh"
  using assms
  by (auto simp: updateTrieEnd_def Let_def mutatedSlot_def split: option.splits if_splits)

text \<open>The refresh of an accessed slot, through the whole of \<open>updateTrie\<close>.\<close>

lemma updateTrie_refresh:
  assumes ok: "updateTrie ops dks pks aks s = (Inr h, s')"
    and expire: "enableExpire (db s)"
    and accessed: "pendingAccessedState s key \<noteq> None"
    and nr: "\<not> rewritten (finalise False dks s) key"
    and dist: "distinct aks" and inaks: "key \<in> set aks"
    and inj: "\<forall>k\<in>set aks. hashData (db s) (hash_bytes k) = hashData (db s) (hash_bytes key) \<longrightarrow> k = key"
  shows "\<exists>tr. h = DetachedTrie tr \<and>
           mutatedSlot s' (hashData (db s) (hash_bytes key))
             = Some (encodeWithEpoch (epoch (db s))
                 (TrimLeftZeroes (hash_bytes (readValue ops key (finalise False dks s))))) \<and>
           (trie_laws ops \<longrightarrow> GetStorage ops tr (address s) (hash_bytes key)
              = (TrimLeftZeroes (hash_bytes (readValue ops key (finalise False dks s))), None))"
proof -
  let ?f = "finalise False dks s"
  obtain p where f: "?f = s\<lparr>pendingStorage := p, dirtyStorage := Map.empty\<rparr>"
    using finalise_no_prefetch [of dks s] by blast
  have ff: "db ?f = db s" "address ?f = address s" "addrHash ?f = addrHash s"
    "pendingAccessedState ?f = pendingAccessedState s"
    by (simp_all add: f)
  have ef: "enableExpire (db ?f)" using expire ff by simp
  have need: "needUpdateTrie ?f"
    using accessed ef ff by (auto simp: needUpdateTrie_def)
  obtain r1 s1 where o: "getPendingReviveTrie ?f = (r1, s1)"
    by (cases "getPendingReviveTrie ?f")
  have v1: "same_view key ?f s1" using o by (rule same_view_getPendingReviveTrie)
  have a1: "pendingAccessedState s1 = pendingAccessedState ?f"
    using o by (auto simp: getPendingReviveTrie_def getTrie_def Let_def
        split: option.splits prod.splits sum.splits if_splits)
  have e1: "enableExpire (db s1)" using v1 ef by (simp add: same_view_expire)
  obtain tr where r1: "r1 = Inr tr"
    using ok need ef o by (cases r1) (auto simp: updateTrie_def Let_def)
  define acc where "acc = (\<lambda>k. map_option (\<lambda>c. ()) (pendingAccessedState s1 k))"
  have acck: "acc key \<noteq> None" using accessed a1 ff by (simp add: acc_def)
  obtain st2 where pl: "forEach (pendingStep ops) pks (s1, tr, acc, []) = Inr st2"
    using ok need ef o r1 e1
    by (cases "forEach (pendingStep ops) pks (s1, tr, acc, [])")
      (auto simp: updateTrie_def Let_def acc_def)
  obtain s2 tr2 acc2 used2 where st2: "st2 = (s2, tr2, acc2, used2)" by (cases st2) auto
  have nr1: "\<not> rewritten s1 key" using nr v1 by (simp add: same_view_rewritten)
  have v2: "same_view key s1 s2" and acc2: "acc2 key = acc key"
    using pendingLoop_view [OF pl [unfolded st2] e1 nr1] by simp_all
  have e2: "enableExpire (db s2)" using v2 e1 by (simp add: same_view_expire)
  obtain st3 where al: "forEach (accessStep ops) aks (s2, tr2, acc2, used2) = Inr st3"
    using ok need ef o r1 e1 pl st2 e2
    by (cases "forEach (accessStep ops) aks (s2, tr2, acc2, used2)")
      (auto simp: updateTrie_def Let_def acc_def)
  obtain s3 tr3 acc3 used3 where st3: "st3 = (s3, tr3, acc3, used3)" by (cases st3) auto
  have en: "updateTrieEnd (s3, tr3, acc3, used3) = (h, s')"
    using ok need ef o r1 e1 pl st2 e2 al st3
    by (auto simp: updateTrie_def Let_def acc_def split: prod.splits)
  have v02: "same_view key ?f s2" using v1 v2 by (rule same_view_trans)
  have c2: "hashData (db s2) = hashData (db s)" "epoch (db s2) = epoch (db s)"
    "address s2 = address s" "addrHash s2 = addrHash s"
    using v02 ff by (simp_all add: same_view_def)
  have inj2: "\<forall>k\<in>set aks. hashData (db s2) (hash_bytes k) = hashData (db s2) (hash_bytes key) \<longrightarrow> k = key"
    using inj c2 by simp
  have acc2k: "acc2 key \<noteq> None" using acc2 acck by simp
  note res = accessLoop_result [OF al [unfolded st3] e2 dist inaks acc2k inj2]
  have rv: "readValue ops key s2 = readValue ops key ?f"
    using v02 by (rule same_view_readValue)
  have e3: "enableExpire (db s3)"
  proof -
    have "case forEach (accessStep ops) aks (s2, tr2, acc2, used2) of
            Inl e \<Rightarrow> True | Inr st \<Rightarrow> enableExpire (db (fst st))"
    proof (rule forEach_invariant [where Q = "\<lambda>st. enableExpire (db (fst st))"])
      show "enableExpire (db (fst (s2, tr2, acc2, used2)))" using e2 by simp
    next
      fix k st st'
      assume a: "accessStep ops k st = Inr st'" "enableExpire (db (fst st))"
      obtain sa ta aa ua where sa: "st = (sa, ta, aa, ua)" by (cases st) auto
      obtain sb tb ab ub where sb: "st' = (sb, tb, ab, ub)" by (cases st') auto
      show "enableExpire (db (fst st'))"
      proof (cases "aa k")
        case None
        then show ?thesis using a sa by (simp add: accessStep_skip)
      next
        case (Some u)
        then have "aa k \<noteq> None" by simp
        then show ?thesis
          using accessStep_effect(5) [OF a(1) [unfolded sa sb] _ a(2) [unfolded sa, simplified]] sb
          by simp
      qed
    qed simp
    then show ?thesis using al st3 by simp
  qed
  have h: "h = DetachedTrie tr3"
    and slot: "mutatedSlot s' (hashData (db s) (hash_bytes key))
                 = mutatedSlot s3 (hashData (db s) (hash_bytes key))"
    using updateTrieEnd_expire [OF en e3] by simp_all
  show ?thesis
    using h slot res rv c2 by simp
qed

lemma GetState_records_access:
  assumes "enableExpire (db s)" and "dirtyStorage s key = None"
    and "GetState ops key s = (v, s1)" and "v \<noteq> 0"
    and "lookup0 (originStorageEpoch s1) key < epoch (db s)"
  shows "pendingAccessedState s1 key = Some (lookup0 (pendingAccessedState s) key + 1)"
proof -
  obtain v0 s0 where c: "GetCommittedState ops key s = (v0, s0)"
    by (cases "GetCommittedState ops key s")
  have s1: "v = v0" "s1 = accessState key s0"
    using assms(2,3,4) c by (auto simp: GetState_def split: if_splits)
  have fr: "read_frame s s0" using c by (rule read_frame_GetCommittedState)
  have sa: "same_access s s0" using c by (rule same_access_GetCommittedState)
  have e0: "enableExpire (db s0)" "epoch (db s0) = epoch (db s)"
    using read_frame_db_fields [OF fr] assms(1) by simp_all
  have ep: "originStorageEpoch s1 = originStorageEpoch s0"
    by (simp add: s1 accessState_def Let_def)
  have "lookup0 (originStorageEpoch s0) key < epoch (db s0)"
    using assms(5) ep e0 by simp
  then have "pendingAccessedState s1 key = Some (lookup0 (pendingAccessedState s0) key + 1)"
    using e0 by (simp add: s1 accessState_def Let_def)
  then show ?thesis using sa by (simp add: same_access_def)
qed

section \<open>Concrete collaborators\<close>

text \<open>
  A trie kept as the list of the writes it received (the latest first), a database
  without snapshot layer, prefetcher or expiry, and an empty account: the instances below
  are built from them.
\<close>

type_synonym trie0 = "(byte list \<times> byte list) list"

definition ops0 :: "(trie0, unit) TrieOps" where
  "ops0 = \<lparr>GetStorage = (\<lambda>t a k. (case map_of t k of None \<Rightarrow> [] | Some v \<Rightarrow> v, None)),
           UpdateStorage = (\<lambda>t a k v. (None, (k, v) # t)),
           DeleteStorage = (\<lambda>t a k. (None, (k, []) # t)),
           Commit = (\<lambda>t b. (Inr (of_nat (length t), ()), t)),
           Hash = (\<lambda>t. of_nat (length t))\<rparr>"

definition db0 :: "trie0 StateDB" where
  "db0 = \<lparr>journal = \<lparr>entries = [], dirties = (\<lambda>a. 0)\<rparr>,
          stateObjectsDestruct = {},
          snap = None,
          enableExpire = False,
          epoch = 0,
          prefetcher = None,
          originalRoot = EmptyRootHash,
          dbErr = None,
          storages = Map.empty,
          storagesOrigin = Map.empty,
          StorageDeleted = 0,
          StorageUpdated = 0,
          hashData = hash_of_bytes,
          OpenStorageTrie = (\<lambda>r a root. Inr []),
          CopyTrie = (\<lambda>t. t)\<rparr>"

definition obj0 :: "trie0 stateObject" where
  "obj0 = \<lparr>db = db0, address = 1, addrHash = 1, origin = None,
           data = \<lparr>Nonce = 0, Balance = 0, Root = EmptyRootHash, CodeHash = hash_bytes EmptyCodeHash\<rparr>,
           trie = None, code = None,
           originStorage = Map.empty, pendingStorage = Map.empty, dirtyStorage = Map.empty,
           pendingReviveTrie = None, pendingReviveState = Map.empty,
           pendingAccessedState = Map.empty, originStorageEpoch = Map.empty,
           dirtyCode = False, selfDestructed = False, deleted = False, created = False\<rparr>"

text \<open>A first read of slot 5 of the empty account: the trie is opened and the miss is cached.\<close>

lemma GetState_obj0: "GetState ops0 5 obj0 = (0, obj0\<lparr>trie := Some [], originStorage := [5 \<mapsto> 0]\<rparr>)"
  by (simp add: GetState_def GetCommittedState_def obj0_def db0_def ops0_def readSnapshot_def
      needLoadFromTrie_def getTrie_def)


lemma GetCommittedState_obj0:
  "GetCommittedState ops0 5 obj0 = (0, obj0\<lparr>trie := Some [], originStorage := [5 \<mapsto> 0]\<rparr>)"
  by (simp add: GetCommittedState_def obj0_def db0_def ops0_def readSnapshot_def
      needLoadFromTrie_def getTrie_def)

section \<open>Properties of the read path\<close>

text \<open>
  C3. \<open>needLoadFromTrie\<close>: without a snapshot layer the trie is always read; with a
  snapshot and expiry off it is read exactly when the snapshot's error is non-nil; with a
  snapshot and expiry on it is read exactly when the error is non-nil or the snapshot's
  bytes are empty.
\<close>

theorem needLoadFromTrie_cases:
  "(snap (db s) = None \<longrightarrow> needLoadFromTrie s enc err) \<and>
   (snap (db s) \<noteq> None \<and> \<not> enableExpire (db s) \<longrightarrow>
      needLoadFromTrie s enc err = (err \<noteq> None)) \<and>
   (snap (db s) \<noteq> None \<and> enableExpire (db s) \<longrightarrow>
      needLoadFromTrie s enc err = (err \<noteq> None \<or> enc = []))"
  by (simp add: needLoadFromTrie_def)

theorem needLoadFromTrie_cases_witness:
  "needLoadFromTrie obj0 [1] None \<and>
   needLoadFromTrie (obj0\<lparr>db := db0\<lparr>snap := Some (\<lambda>a k. ([], None))\<rparr>\<rparr>) [] None = False \<and>
   needLoadFromTrie (obj0\<lparr>db := db0\<lparr>snap := Some (\<lambda>a k. ([], None))\<rparr>\<rparr>) [1] (Some ErrStorageExpired) \<and>
   needLoadFromTrie (obj0\<lparr>db := db0\<lparr>snap := Some (\<lambda>a k. ([], None)), enableExpire := True\<rparr>\<rparr>) [] None \<and>
   needLoadFromTrie (obj0\<lparr>db := db0\<lparr>snap := Some (\<lambda>a k. ([], None)), enableExpire := True\<rparr>\<rparr>) [1] None = False"
  using needLoadFromTrie_cases [of obj0 "[1]" None]
    needLoadFromTrie_cases [of "obj0\<lparr>db := db0\<lparr>snap := Some (\<lambda>a k. ([], None))\<rparr>\<rparr>" "[]" None]
    needLoadFromTrie_cases [of "obj0\<lparr>db := db0\<lparr>snap := Some (\<lambda>a k. ([], None))\<rparr>\<rparr>" "[1]" "Some ErrStorageExpired"]
    needLoadFromTrie_cases [of "obj0\<lparr>db := db0\<lparr>snap := Some (\<lambda>a k. ([], None)), enableExpire := True\<rparr>\<rparr>" "[]" None]
    needLoadFromTrie_cases [of "obj0\<lparr>db := db0\<lparr>snap := Some (\<lambda>a k. ([], None)), enableExpire := True\<rparr>\<rparr>" "[1]" None]
  by (simp add: obj0_def db0_def)

text \<open>
  C4. A key of \<open>dirtyStorage\<close> is read from there: \<open>GetState\<close> returns the dirty value and
  leaves the object as it is, whatever \<open>pendingStorage\<close>, \<open>originStorage\<close>, the snapshot and
  the trie hold (the state \<open>s\<close> and the trie methods are arbitrary).
\<close>

theorem GetState_dirty:
  "dirtyStorage s key = Some v \<Longrightarrow> GetState ops key s = (v, s)"
  by (simp add: GetState_def)

theorem GetState_dirty_witness:
  "dirtyStorage (obj0\<lparr>dirtyStorage := [5 \<mapsto> 9], pendingStorage := [5 \<mapsto> 7], originStorage := [5 \<mapsto> 3]\<rparr>) 5 = Some 9 \<and>
   GetState ops0 5 (obj0\<lparr>dirtyStorage := [5 \<mapsto> 9], pendingStorage := [5 \<mapsto> 7], originStorage := [5 \<mapsto> 3]\<rparr>)
     = (9, obj0\<lparr>dirtyStorage := [5 \<mapsto> 9], pendingStorage := [5 \<mapsto> 7], originStorage := [5 \<mapsto> 3]\<rparr>)"
  using GetState_dirty [of "obj0\<lparr>dirtyStorage := [5 \<mapsto> 9], pendingStorage := [5 \<mapsto> 7], originStorage := [5 \<mapsto> 3]\<rparr>" 5 9 ops0]
  by simp

text \<open>
  C2 (amended). For an account destructed in this block and a key that is neither in
  \<open>pendingStorage\<close> nor, in expiry mode, in \<open>pendingReviveState\<close>, \<open>GetCommittedState\<close>
  returns what \<open>originStorage\<close> caches for the key, and the zero hash when nothing is
  cached, and leaves the object unchanged: the snapshot and the trie are not consulted
  (the database's snapshot and the trie methods are arbitrary). The claim without the
  condition on \<open>originStorage\<close> fails: a cached value is returned before the destruction
  is looked at.
\<close>

theorem GetCommittedState_destructed:
  assumes "address s \<in> stateObjectsDestruct (db s)"
    and "pendingStorage s key = None"
    and "enableExpire (db s) \<longrightarrow> queryFromReviveState s (pendingReviveState s) key = None"
  shows "GetCommittedState ops key s = (lookup0 (originStorage s) key, s)"
  using assms by (auto simp: GetCommittedState_def lookup0_def split: option.splits)

theorem GetCommittedState_destructed_witness:
  "address (obj0\<lparr>db := db0\<lparr>stateObjectsDestruct := {1}\<rparr>\<rparr>)
     \<in> stateObjectsDestruct (db (obj0\<lparr>db := db0\<lparr>stateObjectsDestruct := {1}\<rparr>\<rparr>)) \<and>
   pendingStorage (obj0\<lparr>db := db0\<lparr>stateObjectsDestruct := {1}\<rparr>\<rparr>) 5 = None \<and>
   GetCommittedState ops0 5 (obj0\<lparr>db := db0\<lparr>stateObjectsDestruct := {1}\<rparr>\<rparr>)
     = (0, obj0\<lparr>db := db0\<lparr>stateObjectsDestruct := {1}\<rparr>\<rparr>)"
  using GetCommittedState_destructed [of "obj0\<lparr>db := db0\<lparr>stateObjectsDestruct := {1}\<rparr>\<rparr>" 5 ops0]
  by (simp add: obj0_def db0_def lookup0_def)

theorem GetCommittedState_destructed_counterexample:
  "address (obj0\<lparr>db := db0\<lparr>stateObjectsDestruct := {1}\<rparr>, originStorage := [5 \<mapsto> 7]\<rparr>)
     \<in> stateObjectsDestruct (db (obj0\<lparr>db := db0\<lparr>stateObjectsDestruct := {1}\<rparr>, originStorage := [5 \<mapsto> 7]\<rparr>)) \<and>
   pendingStorage (obj0\<lparr>db := db0\<lparr>stateObjectsDestruct := {1}\<rparr>, originStorage := [5 \<mapsto> 7]\<rparr>) 5 = None \<and>
   fst (GetCommittedState ops0 5 (obj0\<lparr>db := db0\<lparr>stateObjectsDestruct := {1}\<rparr>, originStorage := [5 \<mapsto> 7]\<rparr>)) \<noteq> 0"
  by (simp add: obj0_def db0_def GetCommittedState_def)

text \<open>
  C10 (amended). \<open>GetCommittedState\<close> and \<open>GetState\<close> never change \<open>dirtyStorage\<close> or
  \<open>pendingStorage\<close>. A read may change \<open>originStorage\<close>, \<open>originStorageEpoch\<close> (in expiry
  mode only), \<open>pendingAccessedState\<close> (\<open>GetState\<close> in expiry mode only), the trie handle,
  which the first read that reaches the trie opens, and the database's error; every other
  field of the object and of the database is left as it was. The claim's list of what a
  read may change lacks the trie handle.
\<close>

theorem reads_frame:
  "(GetCommittedState ops key s = (v, s') \<longrightarrow>
      dirtyStorage s' = dirtyStorage s \<and> pendingStorage s' = pendingStorage s \<and>
      pendingAccessedState s' = pendingAccessedState s \<and>
      (\<not> enableExpire (db s) \<longrightarrow> originStorageEpoch s' = originStorageEpoch s) \<and>
      s' = s\<lparr>originStorage := originStorage s', originStorageEpoch := originStorageEpoch s',
             trie := trie s', db := (db s)\<lparr>dbErr := dbErr (db s')\<rparr>\<rparr>) \<and>
   (GetState ops key s = (w, s'') \<longrightarrow>
      dirtyStorage s'' = dirtyStorage s \<and> pendingStorage s'' = pendingStorage s \<and>
      (\<not> enableExpire (db s) \<longrightarrow>
         originStorageEpoch s'' = originStorageEpoch s \<and>
         pendingAccessedState s'' = pendingAccessedState s) \<and>
      s'' = s\<lparr>originStorage := originStorage s'', originStorageEpoch := originStorageEpoch s'',
              pendingAccessedState := pendingAccessedState s'', trie := trie s'',
              db := (db s)\<lparr>dbErr := dbErr (db s'')\<rparr>\<rparr>)"
proof (intro conjI impI)
  assume c: "GetCommittedState ops key s = (v, s')"
  have fr: "read_frame s s'" using c by (rule read_frame_GetCommittedState)
  have sa: "same_access s s'" using c by (rule same_access_GetCommittedState)
  show "dirtyStorage s' = dirtyStorage s" "pendingStorage s' = pendingStorage s"
    using fr by (simp_all add: read_frame_def)
  show acc: "pendingAccessedState s' = pendingAccessedState s"
    using sa by (simp add: same_access_def)
  show "originStorageEpoch s' = originStorageEpoch s" if "\<not> enableExpire (db s)"
    using sa that by (simp add: same_access_def)
  show "s' = s\<lparr>originStorage := originStorage s', originStorageEpoch := originStorageEpoch s',
             trie := trie s', db := (db s)\<lparr>dbErr := dbErr (db s')\<rparr>\<rparr>"
    using read_frame_eq [OF fr] acc by simp
next
  assume g: "GetState ops key s = (w, s'')"
  have fr: "read_frame s s''" using g by (rule read_frame_GetState)
  show "dirtyStorage s'' = dirtyStorage s" "pendingStorage s'' = pendingStorage s"
    using fr by (simp_all add: read_frame_def)
  show "s'' = s\<lparr>originStorage := originStorage s'', originStorageEpoch := originStorageEpoch s'',
              pendingAccessedState := pendingAccessedState s'', trie := trie s'',
              db := (db s)\<lparr>dbErr := dbErr (db s'')\<rparr>\<rparr>"
    using fr by (rule read_frame_eq)
  have both: "originStorageEpoch s'' = originStorageEpoch s \<and>
        pendingAccessedState s'' = pendingAccessedState s" if ne: "\<not> enableExpire (db s)"
  proof (cases "dirtyStorage s key")
    case (Some d)
    then show ?thesis using g by (simp add: GetState_def)
  next
    case None
    obtain v1 s1 where c1: "GetCommittedState ops key s = (v1, s1)"
      by (cases "GetCommittedState ops key s")
    have sa: "same_access s s1" using c1 by (rule same_access_GetCommittedState)
    have e1: "\<not> enableExpire (db s1)"
      using sa ne by (simp add: same_access_def)
    have "s'' = s1"
      using g None c1 e1 by (simp add: GetState_def accessState_def split: if_splits)
    then show ?thesis
      using sa ne by (simp add: same_access_def)
  qed
  show "originStorageEpoch s'' = originStorageEpoch s" if "\<not> enableExpire (db s)"
    using both that by simp
  show "pendingAccessedState s'' = pendingAccessedState s" if "\<not> enableExpire (db s)"
    using both that by simp
qed

theorem reads_frame_witness:
  "GetCommittedState ops0 5 obj0 = (0, obj0\<lparr>trie := Some [], originStorage := [5 \<mapsto> 0]\<rparr>) \<and>
   GetState ops0 5 obj0 = (0, obj0\<lparr>trie := Some [], originStorage := [5 \<mapsto> 0]\<rparr>) \<and>
   \<not> enableExpire (db obj0) \<and>
   dirtyStorage (obj0\<lparr>trie := Some [], originStorage := [5 \<mapsto> 0]\<rparr>) = dirtyStorage obj0 \<and>
   pendingStorage (obj0\<lparr>trie := Some [], originStorage := [5 \<mapsto> 0]\<rparr>) = pendingStorage obj0 \<and>
   pendingAccessedState (obj0\<lparr>trie := Some [], originStorage := [5 \<mapsto> 0]\<rparr>) = pendingAccessedState obj0"
  using reads_frame [of ops0 5 obj0 0 "obj0\<lparr>trie := Some [], originStorage := [5 \<mapsto> 0]\<rparr>"
      0 "obj0\<lparr>trie := Some [], originStorage := [5 \<mapsto> 0]\<rparr>"] GetState_obj0 GetCommittedState_obj0
  by (simp add: obj0_def db0_def)

theorem reads_frame_counterexample:
  "snd (GetCommittedState ops0 5 obj0)
     \<noteq> obj0\<lparr>originStorage := originStorage (snd (GetCommittedState ops0 5 obj0)),
             originStorageEpoch := originStorageEpoch (snd (GetCommittedState ops0 5 obj0)),
             pendingAccessedState := pendingAccessedState (snd (GetCommittedState ops0 5 obj0))\<rparr>"
proof -
  have "trie (snd (GetCommittedState ops0 5 obj0)) = Some []"
    by (simp add: GetCommittedState_obj0)
  moreover have "trie (obj0\<lparr>originStorage := originStorage (snd (GetCommittedState ops0 5 obj0)),
             originStorageEpoch := originStorageEpoch (snd (GetCommittedState ops0 5 obj0)),
             pendingAccessedState := pendingAccessedState (snd (GetCommittedState ops0 5 obj0))\<rparr>) = None"
    by (simp add: obj0_def)
  ultimately show ?thesis by (metis option.distinct(1))
qed

section \<open>Properties of the write path\<close>

text \<open>
  C7 (amended). When \<open>GetState\<close> already returns \<open>v\<close> for the key, \<open>SetState\<close> with \<open>v\<close>
  appends nothing to the journal and leaves \<open>dirtyStorage\<close> and \<open>pendingStorage\<close> unchanged:
  the object ends as the read left it, which differs from the start at most in the read's
  caches, the trie handle and the database's error. "All other object state unchanged"
  fails: the read inside \<open>SetState\<close> caches its result.
\<close>

theorem SetState_unchanged_value:
  assumes "GetState ops key s = (v, s')"
  shows "SetState ops key v s = s' \<and>
         journal (db s') = journal (db s) \<and>
         dirtyStorage s' = dirtyStorage s \<and>
         pendingStorage s' = pendingStorage s \<and>
         s' = s\<lparr>originStorage := originStorage s', originStorageEpoch := originStorageEpoch s',
                pendingAccessedState := pendingAccessedState s', trie := trie s',
                db := (db s)\<lparr>dbErr := dbErr (db s')\<rparr>\<rparr>"
proof -
  have fr: "read_frame s s'" using assms by (rule read_frame_GetState)
  have "SetState ops key v s = s'" using assms by (simp add: SetState_def)
  moreover have "journal (db s') = journal (db s)"
    using fr by (rule read_frame_journal)
  moreover have "dirtyStorage s' = dirtyStorage s" "pendingStorage s' = pendingStorage s"
    using fr by (simp_all add: read_frame_def)
  ultimately show ?thesis using read_frame_eq [OF fr] by blast
qed

theorem SetState_unchanged_value_witness:
  "GetState ops0 5 obj0 = (0, obj0\<lparr>trie := Some [], originStorage := [5 \<mapsto> 0]\<rparr>) \<and>
   SetState ops0 5 0 obj0 = obj0\<lparr>trie := Some [], originStorage := [5 \<mapsto> 0]\<rparr> \<and>
   dirtyStorage (SetState ops0 5 0 obj0) = dirtyStorage obj0"
  using SetState_unchanged_value [OF GetState_obj0] GetState_obj0
  by simp

theorem SetState_unchanged_value_counterexample:
  "fst (GetState ops0 5 obj0) = 0 \<and> SetState ops0 5 0 obj0 \<noteq> obj0"
proof -
  have "originStorage (SetState ops0 5 0 obj0) 5 = Some 0"
    by (simp add: SetState_def GetState_obj0)
  moreover have "originStorage obj0 5 = None"
    by (simp add: obj0_def)
  ultimately have "SetState ops0 5 0 obj0 \<noteq> obj0" by auto
  then show ?thesis by (simp add: GetState_obj0)
qed

text \<open>
  C8 (amended). \<open>AddBalance\<close> with a zero amount appends a touch entry exactly when the
  account is empty, and does nothing when it is not; either way the balance stays and no
  balance entry is appended. With a non-zero amount it is \<open>SetBalance\<close> of the sum, which
  appends an entry holding the previous balance and then sets the balance. The claim
  without the emptiness condition fails on an account with a non-zero nonce.
\<close>

theorem AddBalance_cases:
  "(amount = 0 \<and> empty_account s \<longrightarrow>
      AddBalance amount s = touch s \<and>
      data (AddBalance amount s) = data s \<and>
      entries (journal (db (AddBalance amount s)))
        = entries (journal (db s)) @ [touchChange (address s)]) \<and>
   (amount = 0 \<and> \<not> empty_account s \<longrightarrow> AddBalance amount s = s) \<and>
   (amount \<noteq> 0 \<longrightarrow>
      AddBalance amount s = SetBalance (Balance (data s) + amount) s \<and>
      Balance (data (AddBalance amount s)) = Balance (data s) + amount \<and>
      entries (journal (db (AddBalance amount s)))
        = entries (journal (db s)) @ [balanceChange (address s) (Balance (data s))])"
  by (simp add: AddBalance_def touch_def SetBalance_def setBalance_def journal_append_def
      journal_dirty_def Let_def)

lemma empty_account_obj0: "empty_account obj0"
  by (simp add: empty_account_def obj0_def)

lemma not_empty_account_obj0: "\<not> empty_account (obj0\<lparr>data := (data obj0)\<lparr>Nonce := 1\<rparr>\<rparr>)"
  by (simp add: empty_account_def)

theorem AddBalance_cases_witness:
  "empty_account obj0 \<and>
   entries (journal (db (AddBalance 0 obj0))) = [touchChange 1] \<and>
   Balance (data (AddBalance 0 obj0)) = 0 \<and>
   \<not> empty_account (obj0\<lparr>data := (data obj0)\<lparr>Nonce := 1\<rparr>\<rparr>) \<and>
   AddBalance 0 (obj0\<lparr>data := (data obj0)\<lparr>Nonce := 1\<rparr>\<rparr>) = obj0\<lparr>data := (data obj0)\<lparr>Nonce := 1\<rparr>\<rparr> \<and>
   Balance (data (AddBalance 5 (obj0\<lparr>data := (data obj0)\<lparr>Balance := 2\<rparr>\<rparr>))) = 7 \<and>
   entries (journal (db (AddBalance 5 (obj0\<lparr>data := (data obj0)\<lparr>Balance := 2\<rparr>\<rparr>)))) = [balanceChange 1 2]"
  using AddBalance_cases [of 0 obj0]
    AddBalance_cases [of 0 "obj0\<lparr>data := (data obj0)\<lparr>Nonce := 1\<rparr>\<rparr>"]
    AddBalance_cases [of 5 "obj0\<lparr>data := (data obj0)\<lparr>Balance := 2\<rparr>\<rparr>"]
  by (simp add: empty_account_def AddBalance_def touch_def SetBalance_def setBalance_def
      journal_append_def journal_dirty_def ripemd_def obj0_def db0_def)

theorem AddBalance_zero_counterexample:
  "touchChange (address (obj0\<lparr>data := (data obj0)\<lparr>Nonce := 1\<rparr>\<rparr>))
     \<notin> set (entries (journal (db (AddBalance 0 (obj0\<lparr>data := (data obj0)\<lparr>Nonce := 1\<rparr>\<rparr>)))))"
  using not_empty_account_obj0 by (simp add: AddBalance_def) (simp add: obj0_def db0_def)

section \<open>Properties of the commit pipeline\<close>

text \<open>
  A trie whose \<open>Commit\<close> fails, and an account with one pending write.
\<close>

definition opsCommitFails :: "(trie0, unit) TrieOps" where
  "opsCommitFails = ops0\<lparr>Commit := (\<lambda>t b. (Inl (OtherError 1), t))\<rparr>"

definition objPending :: "trie0 stateObject" where
  "objPending = obj0\<lparr>pendingStorage := [5 \<mapsto> 7]\<rparr>"

lemma updateTrie_objPending:
  "fst (updateTrie opsCommitFails [] [5] [] objPending)
     = Inr (OwnTrie [(hash_bytes 5, TrimLeftZeroes (hash_bytes 7))])"
  by (simp add: updateTrie_def finalise_def needUpdateTrie_def getTrie_def pendingStep_def
      updateTrieEnd_def setWorkingTrie_def cacheMutated_def cacheOrigin_def lookup0_def
      objPending_def obj0_def db0_def opsCommitFails_def ops0_def Let_def)

text \<open>
  C9. Whenever \<open>commit\<close> returns an error, the account record \<open>data\<close> (its \<open>Root\<close> with
  it) and \<open>origin\<close> are what they were before the call; when the \<open>Commit\<close> of the trie
  that \<open>updateTrie\<close> handed over fails, \<open>commit\<close> returns that error; and whenever
  \<open>commit\<close> returns without error, \<open>origin\<close> is a copy of \<open>data\<close>. The iteration orders
  of the three map loops are arbitrary.
\<close>

theorem commit_error_keeps_account:
  "(commit ops dks pks aks s = (Inl err, s') \<longrightarrow> data s' = data s \<and> origin s' = origin s) \<and>
   (updateTrie ops dks pks aks s = (Inr h, s1) \<and> (h = OwnTrie tr \<or> h = DetachedTrie tr) \<and>
    Commit ops tr False = (Inl err, tr1) \<longrightarrow>
      fst (commit ops dks pks aks s) = Inl err \<and>
      data (snd (commit ops dks pks aks s)) = data s \<and>
      Root (data (snd (commit ops dks pks aks s))) = Root (data s) \<and>
      origin (snd (commit ops dks pks aks s)) = origin s) \<and>
   (commit ops dks pks aks s = (Inr nodes, s') \<longrightarrow> origin s' = Some (data s'))"
proof -
  obtain r s2 where u: "updateTrie ops dks pks aks s = (r, s2)"
    by (cases "updateTrie ops dks pks aks s")
  have fr: "data s2 = data s" "origin s2 = origin s"
    using same_account_updateTrie [OF u] by (simp_all add: same_account_def)
  have failed: "data s' = data s \<and> origin s' = origin s"
    if "commit ops dks pks aks s = (Inl err, s')"
    using that u fr
    by (auto simp: commit_def Let_def split: sum.splits trieRef.splits prod.splits)
  have succeeded: "origin s' = Some (data s')"
    if "commit ops dks pks aks s = (Inr nodes, s')"
    using that u
    by (auto simp: commit_def Let_def split: sum.splits trieRef.splits prod.splits)
  have commit_failed:
    "fst (commit ops dks pks aks s) = Inl err \<and>
     data (snd (commit ops dks pks aks s)) = data s \<and>
     Root (data (snd (commit ops dks pks aks s))) = Root (data s) \<and>
     origin (snd (commit ops dks pks aks s)) = origin s"
    if "updateTrie ops dks pks aks s = (Inr h, s1) \<and> (h = OwnTrie tr \<or> h = DetachedTrie tr) \<and>
      Commit ops tr False = (Inl err, tr1)"
    using that u fr by (auto simp: commit_def)
  show ?thesis using failed succeeded commit_failed by blast
qed

theorem commit_error_keeps_account_witness:
  "fst (updateTrie opsCommitFails [] [5] [] objPending)
     = Inr (OwnTrie [(hash_bytes 5, TrimLeftZeroes (hash_bytes 7))]) \<and>
   Commit opsCommitFails [(hash_bytes 5, TrimLeftZeroes (hash_bytes 7))] False
     = (Inl (OtherError 1), [(hash_bytes 5, TrimLeftZeroes (hash_bytes 7))]) \<and>
   fst (commit opsCommitFails [] [5] [] objPending) = Inl (OtherError 1) \<and>
   data (snd (commit opsCommitFails [] [5] [] objPending)) = data objPending \<and>
   origin (snd (commit opsCommitFails [] [5] [] objPending)) = origin objPending"
proof -
  have u: "updateTrie opsCommitFails [] [5] [] objPending
      = (Inr (OwnTrie [(hash_bytes 5, TrimLeftZeroes (hash_bytes 7))]),
         snd (updateTrie opsCommitFails [] [5] [] objPending))"
    using updateTrie_objPending by (cases "updateTrie opsCommitFails [] [5] [] objPending") simp
  have c: "Commit opsCommitFails [(hash_bytes 5, TrimLeftZeroes (hash_bytes 7))] False
     = (Inl (OtherError 1), [(hash_bytes 5, TrimLeftZeroes (hash_bytes 7))])"
    by (simp add: opsCommitFails_def)
  show ?thesis
    using commit_error_keeps_account [of opsCommitFails "[]" "[5]" "[]" objPending "OtherError 1"
        "snd (commit opsCommitFails [] [5] [] objPending)"
        "OwnTrie [(hash_bytes 5, TrimLeftZeroes (hash_bytes 7))]"
        "snd (updateTrie opsCommitFails [] [5] [] objPending)"
        "[(hash_bytes 5, TrimLeftZeroes (hash_bytes 7))]"
        "[(hash_bytes 5, TrimLeftZeroes (hash_bytes 7))]"] u c updateTrie_objPending
    by simp
qed

text \<open>
  An account in expiry mode at epoch 5 whose slot 5 is cached with the value 7 and the
  epoch 3, before and after a read of the slot.
\<close>

definition objExpire :: "trie0 stateObject" where
  "objExpire = obj0\<lparr>db := db0\<lparr>enableExpire := True, epoch := 5\<rparr>,
                    originStorage := [5 \<mapsto> 7], originStorageEpoch := [5 \<mapsto> 3]\<rparr>"

definition objAccessed :: "trie0 stateObject" where
  "objAccessed = objExpire\<lparr>pendingAccessedState := [5 \<mapsto> 1]\<rparr>"

lemma trie_laws_ops0: "trie_laws ops0"
  by (simp add: trie_laws_def ops0_def)

lemma encodeWithEpoch_value:
  "EncodeValueToRLPBytes (ValueWithEpoch e w) = Inr (encodeWithEpoch e (TrimLeftZeroes (hash_bytes w)))"
  by (simp add: encodeWithEpoch_def EncodeValueToRLPBytes_def encodeValTyped_def)

lemma GetState_objExpire: "GetState ops0 5 objExpire = (7, objAccessed)"
  by (simp add: GetState_def GetCommittedState_def accessState_def queryFromReviveState_def
      lookup0_def objAccessed_def objExpire_def obj0_def db0_def)

lemma finalise_objAccessed: "finalise False [] objAccessed = objAccessed"
  by (simp add: finalise_def objAccessed_def objExpire_def obj0_def db0_def)

lemma not_rewritten_objAccessed: "\<not> rewritten (finalise False [] objAccessed) 5"
  by (simp add: finalise_objAccessed) (simp add: rewritten_def objAccessed_def objExpire_def obj0_def)

lemma updateTrie_objAccessed:
  "fst (updateTrie ops0 [] [] [5] objAccessed)
     = Inr (DetachedTrie [(hash_bytes 5, TrimLeftZeroes (hash_bytes 7))])"
  by (simp add: updateTrie_def finalise_objAccessed)
     (simp add: needUpdateTrie_def getPendingReviveTrie_def getTrie_def accessStep_def
      updateTrieEnd_def setWorkingTrie_def cacheMutated_def lookup0_def
      GetState_def GetCommittedState_def accessState_def queryFromReviveState_def
      objAccessed_def objExpire_def obj0_def db0_def ops0_def Let_def)

lemma hash_bytes_7:
  "hash_bytes 7 = [0,0,0,0,0,0,0,0,0,0,0,0,0,0,0,0,0,0,0,0,0,0,0,0,0,0,0,0,0,0,0,7]"
  by (simp add: hash_bytes_def be_bytes_numeral)
lemma encodeEpochHash_5_7:
  "encodeEpochHash 5 7 = [226, 5, 160, 0, 0, 0, 0, 0, 0, 0, 0, 0, 0, 0, 0, 0, 0, 0, 0, 0,
            0, 0, 0, 0, 0, 0, 0, 0, 0, 0, 0, 0, 0, 0, 7]"
  by (simp add: encodeEpochHash_def hash_bytes_7 writeUint_def writeByteArray_def
      encodeStringHeader_def encodeListHeader_def Let_def)
lemma encode_5_7:
  "EncodeValueToRLPBytes (ValueWithEpoch 5 7)
     = Inr [1, 226, 5, 160, 0, 0, 0, 0, 0, 0, 0, 0, 0, 0, 0, 0, 0, 0, 0, 0,
            0, 0, 0, 0, 0, 0, 0, 0, 0, 0, 0, 0, 0, 0, 0, 7]"
  by (simp add: EncodeValueToRLPBytes_def encodeValTyped_def ValueWithEpochType_def
      encodeEpochHash_5_7)
lemma GetState_objAccessed: "fst (GetState ops0 5 (finalise False [] objAccessed)) = 7"
  by (simp add: finalise_objAccessed)
     (simp add: GetState_def GetCommittedState_def accessState_def queryFromReviveState_def
      lookup0_def objAccessed_def objExpire_def obj0_def db0_def)

text \<open>
  C5 (amended). In expiry mode: (1) \<open>GetState\<close> of a key that is not in \<open>dirtyStorage\<close>,
  with a non-zero value and an origin epoch (as cached once the value is read) below the
  current epoch, counts the access in \<open>pendingAccessedState\<close>; a key of \<open>dirtyStorage\<close> is
  returned before any access is counted, which is where the claim fails as stated.
  (2) When \<open>updateTrie\<close> succeeds, a key of \<open>pendingAccessedState\<close> that the loop over
  \<open>pendingStorage\<close> does not rewrite, and that the loop over the accessed keys reaches
  (once, and with no other key of the same hash), is read again with \<open>GetState\<close> and
  written: the account's entry for the hashed key in \<open>s.db.storages\<close> is the encoding of
  \<open>ValueWithEpoch\<close> of the current epoch and the value the slot had when \<open>updateTrie\<close> had
  finalised, and the trie \<open>updateTrie\<close> returns has received that value, left-trimmed,
  through \<open>UpdateStorage\<close> (read back here for a trie that obeys \<open>trie_laws\<close>).
\<close>

theorem access_epoch_refresh:
  assumes "enableExpire (db s)"
  shows "(dirtyStorage s key = None \<and> GetState ops key s = (v, s1) \<and> v \<noteq> 0 \<and>
          lookup0 (originStorageEpoch s1) key < epoch (db s) \<longrightarrow>
            pendingAccessedState s1 key = Some (lookup0 (pendingAccessedState s) key + 1)) \<and>
         (updateTrie ops dirtyOrder pendingOrder accessOrder s = (Inr h, s') \<and>
          pendingAccessedState s key \<noteq> None \<and>
          \<not> rewritten (finalise False dirtyOrder s) key \<and>
          distinct accessOrder \<and> key \<in> set accessOrder \<and>
          (\<forall>k\<in>set accessOrder.
             hashData (db s) (hash_bytes k) = hashData (db s) (hash_bytes key) \<longrightarrow> k = key) \<longrightarrow>
            (\<exists>tr b. h = DetachedTrie tr \<and>
               EncodeValueToRLPBytes
                 (ValueWithEpoch (epoch (db s)) (fst (GetState ops key (finalise False dirtyOrder s))))
                 = Inr b \<and>
               mutatedSlot s' (hashData (db s) (hash_bytes key)) = Some b \<and>
               (trie_laws ops \<longrightarrow>
                  GetStorage ops tr (address s) (hash_bytes key)
                    = (TrimLeftZeroes
                         (hash_bytes (fst (GetState ops key (finalise False dirtyOrder s)))),
                       None))))"
proof (intro conjI impI)
  assume "dirtyStorage s key = None \<and> GetState ops key s = (v, s1) \<and> v \<noteq> 0 \<and>
          lookup0 (originStorageEpoch s1) key < epoch (db s)"
  then show "pendingAccessedState s1 key = Some (lookup0 (pendingAccessedState s) key + 1)"
    using GetState_records_access [OF assms, of key ops v s1] by simp
next
  assume a: "updateTrie ops dirtyOrder pendingOrder accessOrder s = (Inr h, s') \<and>
          pendingAccessedState s key \<noteq> None \<and>
          \<not> rewritten (finalise False dirtyOrder s) key \<and>
          distinct accessOrder \<and> key \<in> set accessOrder \<and>
          (\<forall>k\<in>set accessOrder.
             hashData (db s) (hash_bytes k) = hashData (db s) (hash_bytes key) \<longrightarrow> k = key)"
  let ?w = "fst (GetState ops key (finalise False dirtyOrder s))"
  have w: "?w = readValue ops key (finalise False dirtyOrder s)" by (rule GetState_value)
  obtain tr where r: "h = DetachedTrie tr"
    "mutatedSlot s' (hashData (db s) (hash_bytes key))
       = Some (encodeWithEpoch (epoch (db s)) (TrimLeftZeroes (hash_bytes ?w)))"
    "trie_laws ops \<longrightarrow> GetStorage ops tr (address s) (hash_bytes key)
       = (TrimLeftZeroes (hash_bytes ?w), None)"
    using updateTrie_refresh [of ops dirtyOrder pendingOrder accessOrder s h s' key] a assms w
    by auto
  show "\<exists>tr b. h = DetachedTrie tr \<and>
          EncodeValueToRLPBytes (ValueWithEpoch (epoch (db s)) ?w) = Inr b \<and>
          mutatedSlot s' (hashData (db s) (hash_bytes key)) = Some b \<and>
          (trie_laws ops \<longrightarrow>
             GetStorage ops tr (address s) (hash_bytes key) = (TrimLeftZeroes (hash_bytes ?w), None))"
    using r encodeWithEpoch_value [of "epoch (db s)" ?w] by blast
qed

theorem access_epoch_refresh_witness:
  "enableExpire (db objExpire) \<and> dirtyStorage objExpire 5 = None \<and>
   GetState ops0 5 objExpire = (7, objAccessed) \<and>
   lookup0 (originStorageEpoch objAccessed) 5 < epoch (db objExpire) \<and>
   pendingAccessedState objAccessed 5 = Some 1 \<and>
   enableExpire (db objAccessed) \<and>
   \<not> rewritten (finalise False [] objAccessed) 5 \<and>
   trie_laws ops0 \<and>
   fst (updateTrie ops0 [] [] [5] objAccessed)
     = Inr (DetachedTrie [(hash_bytes 5, TrimLeftZeroes (hash_bytes 7))]) \<and>
   mutatedSlot (snd (updateTrie ops0 [] [] [5] objAccessed)) 5
     = Some [1, 226, 5, 160, 0, 0, 0, 0, 0, 0, 0, 0, 0, 0, 0, 0, 0, 0, 0, 0,
             0, 0, 0, 0, 0, 0, 0, 0, 0, 0, 0, 0, 0, 0, 0, 7] \<and>
   GetStorage ops0 [(hash_bytes 5, TrimLeftZeroes (hash_bytes 7))] 1 (hash_bytes 5)
     = (TrimLeftZeroes (hash_bytes 7), None)"
proof -
  have e1: "enableExpire (db objExpire)" and e2: "enableExpire (db objAccessed)"
    by (simp_all add: objAccessed_def objExpire_def)
  have d: "dirtyStorage objExpire 5 = None"
    by (simp add: objExpire_def obj0_def)
  have ep: "lookup0 (originStorageEpoch objAccessed) 5 < epoch (db objExpire)"
    by (simp add: lookup0_def objAccessed_def objExpire_def obj0_def)
  have acc: "pendingAccessedState objAccessed 5 = Some 1"
    by (simp add: objAccessed_def)
  have hd: "hashData (db objAccessed) = hash_of_bytes" "epoch (db objAccessed) = 5"
    "address objAccessed = 1"
    by (simp_all add: objAccessed_def objExpire_def obj0_def db0_def)
  have u: "updateTrie ops0 [] [] [5] objAccessed
             = (Inr (DetachedTrie [(hash_bytes 5, TrimLeftZeroes (hash_bytes 7))]),
                snd (updateTrie ops0 [] [] [5] objAccessed))"
    using updateTrie_objAccessed by (cases "updateTrie ops0 [] [] [5] objAccessed") simp
  have g: "GetStorage ops0 [(hash_bytes 5, TrimLeftZeroes (hash_bytes 7))] 1 (hash_bytes 5)
     = (TrimLeftZeroes (hash_bytes 7), None)"
    by (simp add: ops0_def)
  note t1 = access_epoch_refresh [OF e1, where key = 5 and ops = ops0 and v = 7 and ?s1.0 = objAccessed]
  note t2 = access_epoch_refresh [OF e2, where key = 5 and ops = ops0 and dirtyOrder = "[]"
      and pendingOrder = "[]" and accessOrder = "[5]"
      and h = "DetachedTrie [(hash_bytes 5, TrimLeftZeroes (hash_bytes 7))]"
      and s' = "snd (updateTrie ops0 [] [] [5] objAccessed)"]
  have "mutatedSlot (snd (updateTrie ops0 [] [] [5] objAccessed)) 5
     = Some [1, 226, 5, 160, 0, 0, 0, 0, 0, 0, 0, 0, 0, 0, 0, 0, 0, 0, 0, 0,
             0, 0, 0, 0, 0, 0, 0, 0, 0, 0, 0, 0, 0, 0, 0, 7]"
    using t2 u acc not_rewritten_objAccessed GetState_objAccessed encode_5_7 hd
    by simp
  then show ?thesis
    using t1 e1 e2 d ep acc GetState_objExpire not_rewritten_objAccessed trie_laws_ops0
      updateTrie_objAccessed g
    by simp
qed

theorem access_epoch_refresh_counterexample:
  "enableExpire (db (objExpire\<lparr>dirtyStorage := [5 \<mapsto> 7]\<rparr>)) \<and>
   fst (GetState ops0 5 (objExpire\<lparr>dirtyStorage := [5 \<mapsto> 7]\<rparr>)) \<noteq> 0 \<and>
   lookup0 (originStorageEpoch (snd (GetState ops0 5 (objExpire\<lparr>dirtyStorage := [5 \<mapsto> 7]\<rparr>)))) 5
     < epoch (db (objExpire\<lparr>dirtyStorage := [5 \<mapsto> 7]\<rparr>)) \<and>
   pendingAccessedState (snd (GetState ops0 5 (objExpire\<lparr>dirtyStorage := [5 \<mapsto> 7]\<rparr>))) 5 = None"
  by (simp add: GetState_def lookup0_def objExpire_def obj0_def db0_def)

section \<open>Facts about the serialization\<close>

text \<open>
  The minimal big-endian bytes of a number: they read back as the number, their first
  byte is not zero, and a number below \<open>256 ^ k\<close> takes at most \<open>k\<close> of them.
\<close>

lemma putint_0 [simp]: "putint 0 = []"
  by (simp add: putint.simps)

lemma putint_pos: "0 < n \<Longrightarrow> putint n = putint (n div 256) @ [of_nat (n mod 256)]"
  by (subst putint.simps) simp

lemma be_nat_putint [simp]: "be_nat (putint n) = n"
proof (induction n rule: putint.induct)
  case (1 n)
  show ?case
  proof (cases "n = 0")
    case True
    then show ?thesis by simp
  next
    case False
    then have "be_nat (putint n) = 256 * be_nat (putint (n div 256)) + unat (of_nat (n mod 256) :: byte)"
      by (simp add: putint_pos)
    also have "\<dots> = 256 * (n div 256) + n mod 256"
      using 1 False by (simp add: unat_of_nat)
    finally show ?thesis by simp
  qed
qed

lemma putint_eq_Nil [simp]: "putint n = [] \<longleftrightarrow> n = 0"
  by (cases "n = 0") (simp_all add: putint_pos)

lemma length_putint_le: "n < 256 ^ k \<Longrightarrow> length (putint n) \<le> k"
proof (induction n arbitrary: k rule: putint.induct)
  case (1 n)
  show ?case
  proof (cases "n = 0")
    case True
    then show ?thesis by simp
  next
    case False
    then obtain j where k: "k = Suc j" using "1.prems" by (cases k) auto
    have "n div 256 < 256 ^ j"
      using "1.prems" k by (simp add: less_mult_imp_div_less mult.commute)
    then have "length (putint (n div 256)) \<le> j" using "1.IH" False by simp
    then show ?thesis using False k by (simp add: putint_pos)
  qed
qed

lemma hd_putint: "0 < n \<Longrightarrow> hd (putint n) \<noteq> 0"
proof (induction n rule: putint.induct)
  case (1 n)
  show ?case
  proof (cases "n div 256 = 0")
    case True
    then have "n < 256" using "1.prems"
      by (metis div_eq_0_iff zero_neq_numeral)
    then have "putint n = [of_nat n]" using "1.prems" True by (simp add: putint_pos)
    moreover have "(of_nat n :: byte) \<noteq> 0"
    proof
      assume "(of_nat n :: byte) = 0"
      then have "unat (of_nat n :: byte) = 0" by simp
      then show False using \<open>n < 256\<close> "1.prems" by (simp add: unat_of_nat)
    qed
    ultimately show ?thesis by simp
  next
    case False
    then have "hd (putint (n div 256)) \<noteq> 0" using "1.IH" "1.prems" by simp
    moreover have "putint (n div 256) \<noteq> []" using False by simp
    ultimately have "hd (putint (n div 256) @ [of_nat (n mod 256)]) \<noteq> 0"
      by (simp only: hd_append2 not_False_eq_True)
    then show ?thesis using putint_pos [OF "1.prems"] by metis
  qed
qed

lemma putint_small: "0 < n \<Longrightarrow> n < 256 \<Longrightarrow> putint n = [of_nat n]"
  by (simp add: putint_pos)

text \<open>What \<open>Split\<close> reads off the headers that the encoder writes.\<close>

lemma unat_byte_of_nat: "n < 256 \<Longrightarrow> unat (of_nat n :: byte) = n"
  by (simp add: unat_of_nat)

lemma readKind_byte:
  "x < 0x80 \<Longrightarrow> readKind (x # bs) = Inr (ByteK, 0, 1)"
  by (simp add: readKind_def)

lemma readKind_short_string:
  assumes "n < 56" and "n \<le> length bs" and "n = 1 \<longrightarrow> \<not> hd bs < 128"
  shows "readKind (of_nat (0x80 + n) # bs) = Inr (StringK, 1, n)"
proof -
  let ?b = "of_nat (0x80 + n) :: byte"
  have u: "unat ?b = 128 + n" using assms(1) unat_byte_of_nat [of "0x80 + n"] by simp
  have c: "\<not> ?b < 0x80" "?b < 0xB8"
    using u assms(1) by (simp_all add: word_less_nat_alt)
  show ?thesis
    using assms c u by (auto simp: readKind_def Let_def)
qed

lemma readKind_short_list:
  assumes "n < 56" and "n \<le> length bs"
  shows "readKind (of_nat (0xC0 + n) # bs) = Inr (ListK, 1, n)"
proof -
  let ?b = "of_nat (0xC0 + n) :: byte"
  have u: "unat ?b = 192 + n" using assms(1) unat_byte_of_nat [of "0xC0 + n"] by simp
  have c: "\<not> ?b < 0x80" "\<not> ?b < 0xB8" "\<not> ?b < 0xC0" "?b < 0xF8"
    using u assms(1) by (simp_all add: word_less_nat_alt)
  show ?thesis
    using assms c u by (auto simp: readKind_def Let_def)
qed

lemma readSize_putint:
  assumes "56 \<le> n"
  shows "readSize (putint n @ c) (length (putint n)) = Inr n"
proof -
  have pos: "0 < n" using assms by simp
  then obtain b0 bs where p: "putint n = b0 # bs"
    by (cases "putint n") auto
  have "b0 \<noteq> 0" using hd_putint [OF pos] p by simp
  then show ?thesis
    using assms p be_nat_putint [of n] by (auto simp: readSize_def Let_def)
qed

lemma readKind_long_string:
  assumes "56 \<le> n" and "n < 2 ^ 64" and "n \<le> length c"
  shows "readKind (of_nat (0xB7 + length (putint n)) # putint n @ c)
           = Inr (StringK, length (putint n) + 1, n)"
proof -
  let ?ll = "length (putint n)"
  let ?b = "of_nat (0xB7 + ?ll) :: byte"
  have "n < 256 ^ 8" using assms(2) by simp
  then have le: "?ll \<le> 8" by (rule length_putint_le)
  have ge: "1 \<le> ?ll" using assms(1) by (cases "putint n") auto
  have u: "unat ?b = 183 + ?ll" using le unat_byte_of_nat [of "0xB7 + ?ll"] by simp
  have cmp: "\<not> ?b < 0x80" "\<not> ?b < 0xB8" "?b < 0xC0"
    using u le ge assms(1) by (simp_all add: word_less_nat_alt)
  have rs: "readSize (putint n @ c) (unat ?b - 0xB7) = Inr n"
    using readSize_putint [OF assms(1)] u by simp
  show ?thesis
    using cmp rs u assms(3) by (simp add: readKind_def Let_def)
qed

lemma Split_byte: "x < 0x80 \<Longrightarrow> Split (x # rest) = Inr (ByteK, [x], rest)"
  by (simp add: Split_def readKind_byte)

lemma Split_short_string:
  assumes "length c < 56" and "length c = 1 \<longrightarrow> \<not> hd c < 128"
  shows "Split (of_nat (0x80 + length c) # c @ rest) = Inr (StringK, c, rest)"
proof -
  have "length c = 1 \<longrightarrow> \<not> hd (c @ rest) < 128"
    using assms(2) by (cases c) auto
  then have "readKind (of_nat (0x80 + length c) # c @ rest) = Inr (StringK, 1, length c)"
    using assms(1) by (intro readKind_short_string) simp_all
  then show ?thesis by (simp add: Split_def)
qed

lemma Split_long_string:
  assumes "56 \<le> length c" and "length c < 2 ^ 64"
  shows "Split (of_nat (0xB7 + length (putint (length c))) # putint (length c) @ c @ rest)
           = Inr (StringK, c, rest)"
proof -
  have "readKind (of_nat (0xB7 + length (putint (length c))) # putint (length c) @ (c @ rest))
          = Inr (StringK, length (putint (length c)) + 1, length c)"
    using assms by (intro readKind_long_string) simp_all
  then show ?thesis by (simp add: Split_def)
qed

lemma Split_short_list:
  assumes "length c < 56"
  shows "Split (of_nat (0xC0 + length c) # c @ rest) = Inr (ListK, c, rest)"
proof -
  have "readKind (of_nat (0xC0 + length c) # c @ rest) = Inr (ListK, 1, length c)"
    using assms by (intro readKind_short_list) simp_all
  then show ?thesis by (simp add: Split_def)
qed

text \<open>A byte string that is not a single byte below \<open>0x80\<close> is split off its encoding.\<close>

lemma writeBytes_header:
  assumes "\<not> (length v = 1 \<and> hd v \<le> 0x7F)"
  shows "writeBytes v = encodeStringHeader (length v) @ v"
  unfolding writeBytes_def by (simp only: assms if_False)

lemma Split_writeBytes:
  assumes "\<not> (length v = 1 \<and> hd v \<le> 0x7F)" and "length v < 2 ^ 64"
  shows "Split (writeBytes v @ rest) = Inr (StringK, v, rest)"
proof (cases "length v < 56")
  case True
  have "length v = 1 \<longrightarrow> \<not> hd v < 128"
    using assms(1) by (auto simp: word_less_nat_alt word_le_nat_alt)
  then show ?thesis
    using True Split_short_string [of v rest]
    by (simp add: writeBytes_header [OF assms(1)] encodeStringHeader_def)
next
  case False
  then show ?thesis
    using assms(2) Split_long_string [of v rest]
    by (simp add: writeBytes_header [OF assms(1)] encodeStringHeader_def)
qed

lemma hd_writeBytes:
  assumes "\<not> (length v = 1 \<and> hd v \<le> 0x7F)" and "length v < 2 ^ 64"
  shows "writeBytes v \<noteq> [] \<and> hd (writeBytes v) > 0x7f"
proof (cases "length v < 56")
  case True
  then have "unat (of_nat (0x80 + length v) :: byte) = 128 + length v"
    using unat_byte_of_nat [of "0x80 + length v"] by simp
  then show ?thesis
    using True by (simp add: writeBytes_header [OF assms(1)] encodeStringHeader_def word_less_nat_alt)
next
  case False
  have "length v < 256 ^ 8" using assms(2) by simp
  then have "length (putint (length v)) \<le> 8" by (rule length_putint_le)
  then have "unat (of_nat (0xB7 + length (putint (length v))) :: byte) = 183 + length (putint (length v))"
    using unat_byte_of_nat [of "0xB7 + length (putint (length v))"] by simp
  then show ?thesis
    using False by (simp add: writeBytes_header [OF assms(1)] encodeStringHeader_def word_less_nat_alt)
qed

lemma unat_epoch_lt: "unat (e :: StateEpoch) < 256 ^ 2"
  using unsigned_less [of e, where 'a = nat] by simp

lemma length_writeUint: "n < 256 ^ 2 \<Longrightarrow> length (writeUint n) \<le> 3"
  using length_putint_le [of n 2] by (simp add: writeUint_def)

lemma writeUint_nonempty: "writeUint n \<noteq> []"
  by (simp add: writeUint_def)

text \<open>An epoch is split off its encoding and decoded to itself.\<close>

lemma Split_writeUint:
  fixes e :: StateEpoch
  shows "\<exists>k c. Split (writeUint (unat e) @ rest) = Inr (k, c, rest) \<and> decodeUint16 k c = Inr e"
proof -
  let ?n = "unat e"
  have e: "of_nat ?n = e" by simp
  consider "?n = 0" | "0 < ?n \<and> ?n < 128" | "128 \<le> ?n" by linarith
  then show ?thesis
  proof cases
    case 1
    have "Split (of_nat (0x80 + length ([] :: byte list)) # [] @ rest) = Inr (StringK, [], rest)"
      by (rule Split_short_string) simp_all
    then have "Split (writeUint ?n @ rest) = Inr (StringK, [], rest)"
      using 1 by (simp add: writeUint_def)
    moreover have "decodeUint16 StringK [] = Inr e"
      using 1 e by (simp add: decodeUint16_def)
    ultimately show ?thesis by blast
  next
    case 2
    let ?x = "of_nat ?n :: byte"
    have u: "unat ?x = ?n" using 2 unat_byte_of_nat [of ?n] by simp
    have lt: "?x < 0x80" using u 2 by (simp add: word_less_nat_alt)
    have nz: "?x \<noteq> 0" using u 2 by (metis less_numeral_extra(3) unat_0)
    have "Split (writeUint ?n @ rest) = Inr (ByteK, [?x], rest)"
      using 2 Split_byte [OF lt, of rest] by (simp add: writeUint_def)
    moreover have "decodeUint16 ByteK [?x] = Inr e"
      using nz u e by (simp add: decodeUint16_def be_nat_Cons)
    ultimately show ?thesis by blast
  next
    case 3
    let ?c = "putint ?n"
    have pos: "0 < ?n" using 3 by simp
    have len: "length ?c \<le> 2" using unat_epoch_lt [of e] by (rule length_putint_le)
    have one: "length ?c = 1 \<longrightarrow> \<not> hd ?c < 128"
    proof
      assume l: "length ?c = 1"
      have "?n < 256"
      proof (rule ccontr)
        assume "\<not> ?n < 256"
        then have "0 < ?n div 256" by (simp add: div_greater_zero_iff)
        then have "putint (?n div 256) \<noteq> []" by simp
        then have "2 \<le> length ?c"
          using putint_pos [OF pos] by (cases "putint (?n div 256)") auto
        then show False using l by simp
      qed
      then have "?c = [of_nat ?n]" "unat (of_nat ?n :: byte) = ?n"
        using pos putint_small [of ?n] unat_byte_of_nat [of ?n] by simp_all
      then show "\<not> hd ?c < 128" using 3 by (simp add: word_less_nat_alt)
    qed
    have "Split (of_nat (0x80 + length ?c) # ?c @ rest) = Inr (StringK, ?c, rest)"
      using len one by (intro Split_short_string) simp_all
    then have "Split (writeUint ?n @ rest) = Inr (StringK, ?c, rest)"
      using 3 by (simp add: writeUint_def)
    moreover have "decodeUint16 StringK ?c = Inr e"
    proof -
      obtain c0 cs where c: "?c = c0 # cs" using pos by (cases ?c) auto
      have "c0 \<noteq> 0" using hd_putint [OF pos] c by simp
      then show ?thesis using len c e be_nat_putint [of ?n] by (simp add: decodeUint16_def)
    qed
    ultimately show ?thesis by blast
  qed
qed

lemma Split_writeByteArray:
  assumes "length c = 32"
  shows "Split (writeByteArray c @ rest) = Inr (StringK, c, rest)"
  using Split_short_string [of c rest] assms
  by (simp add: writeByteArray_def encodeStringHeader_def)

lemma length_writeByteArray: "length c = 32 \<Longrightarrow> length (writeByteArray c) = 33"
  by (simp add: writeByteArray_def encodeStringHeader_def)

text \<open>The struct of an epoch and a hash is decoded from its encoding.\<close>

lemma decodeEpochHash_encodeEpochHash: "decodeEpochHash (encodeEpochHash e h) = Inr (e, h)"
proof -
  let ?u = "writeUint (unat e)"
  let ?a = "writeByteArray (hash_bytes h)"
  let ?p = "?u @ ?a"
  have la: "length ?a = 33" by (simp add: length_writeByteArray)
  have lu: "length ?u \<le> 3" using unat_epoch_lt [of e] by (rule length_writeUint)
  have lp: "length ?p < 56" using la lu by simp
  have enc: "encodeEpochHash e h = of_nat (0xC0 + length ?p) # ?p @ []"
    using lp by (simp add: encodeEpochHash_def encodeListHeader_def Let_def)
  have s0: "Split (encodeEpochHash e h) = Inr (ListK, ?p, [])"
    unfolding enc using lp by (rule Split_short_list)
  obtain k1 c1 where s1: "Split ?p = Inr (k1, c1, ?a)" and d1: "decodeUint16 k1 c1 = Inr e"
    using Split_writeUint [of e ?a] by blast
  have s2: "Split ?a = Inr (StringK, hash_bytes h, [])"
    using Split_writeByteArray [of "hash_bytes h" "[]"] by simp
  have d2: "decodeHash StringK (hash_bytes h) = Inr h"
    by (simp add: decodeHash_def)
  have ne: "encodeEpochHash e h \<noteq> []" "?p \<noteq> []" "?a \<noteq> []"
    using la by (auto simp: enc)
  show ?thesis
    unfolding decodeEpochHash_def
    by (simp only: ne s0 s1 s2 d1 d2 if_False if_True sum.case prod.case simp_thms Kind.distinct refl)
qed

section \<open>Properties of the snapshot value codec\<close>

text \<open>
  C6. On the empty byte slice \<open>DecodeValueFromRLPBytes\<close> does not return an error: the
  guard \<open>len(b) > 0\<close> fails, and \<open>decodeValTyped\<close> indexes \<open>b[0]\<close>, which panics. On every
  other input it returns.
\<close>

theorem DecodeValueFromRLPBytes_empty:
  "DecodeValueFromRLPBytes [] = Panic"
  by (simp add: DecodeValueFromRLPBytes_def decodeValTyped_def)

lemma DecodeValueFromRLPBytes_nonempty:
  "b \<noteq> [] \<Longrightarrow> DecodeValueFromRLPBytes b \<noteq> Panic"
  by (cases b) (auto simp: DecodeValueFromRLPBytes_def decodeValTyped_def split: sum.splits prod.splits)

text \<open>
  C1. A \<open>RawValue\<close> of one byte below \<open>0x80\<close> is encoded as that byte, which the decoder
  reads as a type tag: the bytes 1 and 2 reach the decoder of the tagged structs with
  nothing left to decode, the byte 0 is no known tag. None of the three decodes to the
  value that was encoded.
\<close>

theorem RawValue_single_byte:
  "EncodeValueToRLPBytes (RawValue [0]) = Inr [0] \<and>
   DecodeValueFromRLPBytes [0] = Return (Inl ErrSnapValueNotSupport) \<and>
   EncodeValueToRLPBytes (RawValue [1]) = Inr [1] \<and>
   DecodeValueFromRLPBytes [1] = Return (Inl (RlpError EOF)) \<and>
   EncodeValueToRLPBytes (RawValue [2]) = Inr [2] \<and>
   DecodeValueFromRLPBytes [2] = Return (Inl (RlpError EOF))"
  by (simp add: EncodeValueToRLPBytes_def writeBytes_def DecodeValueFromRLPBytes_def
      decodeValTyped_def ValueWithEpochType_def ShrinkNodeWithEpochType_def decodeEpochHash_def)

text \<open>
  The round trip of the codec. A value of either tagged variant, and a \<open>RawValue\<close> that is
  not one single byte below \<open>0x80\<close>, is decoded from its encoding (a byte string longer
  than \<open>2 ^ 64\<close> bytes has no encoding in the format).
\<close>

theorem codec_roundtrip:
  assumes "\<forall>x. v = RawValue [x] \<longrightarrow> x > 0x7f"
    and "\<forall>r. v = RawValue r \<longrightarrow> length r < 2 ^ 64"
  shows "\<exists>b. EncodeValueToRLPBytes v = Inr b \<and> DecodeValueFromRLPBytes b = Return (Inr v)"
proof (cases v)
  case (RawValue r)
  have nb: "\<not> (length r = 1 \<and> hd r \<le> 0x7F)"
  proof
    assume a: "length r = 1 \<and> hd r \<le> 0x7F"
    then obtain x where r: "r = [x]" by (cases r) auto
    then have "x > 0x7f" using assms(1) RawValue by simp
    then show False using a r by simp
  qed
  have len: "length r < 2 ^ 64" using assms(2) RawValue by simp
  have hd: "writeBytes r \<noteq> []" "hd (writeBytes r) > 0x7f"
    using hd_writeBytes [OF nb len] by simp_all
  have sp: "Split (writeBytes r) = Inr (StringK, r, [])"
    using Split_writeBytes [OF nb len, of "[]"] by simp
  have "EncodeValueToRLPBytes v = Inr (writeBytes r)"
    by (simp add: RawValue EncodeValueToRLPBytes_def)
  moreover have "DecodeValueFromRLPBytes (writeBytes r) = Return (Inr v)"
    using hd sp by (simp add: DecodeValueFromRLPBytes_def RawValue)
  ultimately show ?thesis by blast
next
  case (ValueWithEpoch e h)
  have "EncodeValueToRLPBytes v = Inr (1 # encodeEpochHash e h)"
    by (simp add: ValueWithEpoch EncodeValueToRLPBytes_def encodeValTyped_def ValueWithEpochType_def)
  moreover have "DecodeValueFromRLPBytes (1 # encodeEpochHash e h) = Return (Inr v)"
    by (simp add: DecodeValueFromRLPBytes_def decodeValTyped_def ValueWithEpochType_def
        decodeEpochHash_encodeEpochHash ValueWithEpoch)
  ultimately show ?thesis by blast
next
  case (ShrinkNodeWithEpoch e h)
  have "EncodeValueToRLPBytes v = Inr (2 # encodeEpochHash e h)"
    by (simp add: ShrinkNodeWithEpoch EncodeValueToRLPBytes_def encodeValTyped_def
        ShrinkNodeWithEpochType_def)
  moreover have "DecodeValueFromRLPBytes (2 # encodeEpochHash e h) = Return (Inr v)"
    by (simp add: DecodeValueFromRLPBytes_def decodeValTyped_def ValueWithEpochType_def
        ShrinkNodeWithEpochType_def decodeEpochHash_encodeEpochHash ShrinkNodeWithEpoch)
  ultimately show ?thesis by blast
qed

theorem codec_roundtrip_witness:
  "(\<exists>b. EncodeValueToRLPBytes (ValueWithEpoch 5 7) = Inr b \<and>
        DecodeValueFromRLPBytes b = Return (Inr (ValueWithEpoch 5 7))) \<and>
   (\<exists>b. EncodeValueToRLPBytes (ShrinkNodeWithEpoch 5 7) = Inr b \<and>
        DecodeValueFromRLPBytes b = Return (Inr (ShrinkNodeWithEpoch 5 7))) \<and>
   (\<exists>b. EncodeValueToRLPBytes (RawValue [0, 1]) = Inr b \<and>
        DecodeValueFromRLPBytes b = Return (Inr (RawValue [0, 1]))) \<and>
   (\<exists>b. EncodeValueToRLPBytes (RawValue [0x80]) = Inr b \<and>
        DecodeValueFromRLPBytes b = Return (Inr (RawValue [0x80]))) \<and>
   (\<exists>b. EncodeValueToRLPBytes (RawValue []) = Inr b \<and>
        DecodeValueFromRLPBytes b = Return (Inr (RawValue [])))"
  using codec_roundtrip [of "ValueWithEpoch 5 7"] codec_roundtrip [of "ShrinkNodeWithEpoch 5 7"]
    codec_roundtrip [of "RawValue [0, 1]"] codec_roundtrip [of "RawValue [0x80]"]
    codec_roundtrip [of "RawValue []"]
  by simp

text \<open>
  Bytes that start with the tag 1 decode to a \<open>ValueWithEpoch\<close> or to an error, never to a
  \<open>RawValue\<close>.
\<close>

theorem decode_tag_one:
  "DecodeValueFromRLPBytes (1 # rest) = Return (Inr v) \<Longrightarrow> \<exists>e h. v = ValueWithEpoch e h"
  by (auto simp: DecodeValueFromRLPBytes_def decodeValTyped_def ValueWithEpochType_def
      split: sum.splits prod.splits)

theorem decode_tag_one_witness:
  "DecodeValueFromRLPBytes (1 # encodeEpochHash 5 7) = Return (Inr (ValueWithEpoch 5 7)) \<and>
   (\<exists>e h. ValueWithEpoch 5 7 = ValueWithEpoch e h)"
proof -
  have d: "DecodeValueFromRLPBytes (1 # encodeEpochHash 5 7) = Return (Inr (ValueWithEpoch 5 7))"
    by (simp add: DecodeValueFromRLPBytes_def decodeValTyped_def ValueWithEpochType_def
        decodeEpochHash_encodeEpochHash)
  show ?thesis using decode_tag_one [OF d] d by simp
qed

text \<open>
  Every \<open>RawValue\<close> of one byte below \<open>0x80\<close> is encoded as that byte and decoded to an
  error.
\<close>

theorem RawValue_small_byte:
  "x \<le> 0x7f \<Longrightarrow>
     EncodeValueToRLPBytes (RawValue [x]) = Inr [x] \<and>
     (\<exists>e. DecodeValueFromRLPBytes [x] = Return (Inl e))"
  by (auto simp: EncodeValueToRLPBytes_def writeBytes_def DecodeValueFromRLPBytes_def
      decodeValTyped_def decodeEpochHash_def)

theorem RawValue_small_byte_witness:
  "(0x7f :: byte) \<le> 0x7f \<and> EncodeValueToRLPBytes (RawValue [0x7f]) = Inr [0x7f] \<and>
   DecodeValueFromRLPBytes [0x7f] = Return (Inl ErrSnapValueNotSupport)"
  using RawValue_small_byte [of "0x7f"]
  by (simp add: DecodeValueFromRLPBytes_def decodeValTyped_def ValueWithEpochType_def
      ShrinkNodeWithEpochType_def)

end
